theory Spec2Isabelle
  imports Main "HOL-Library.Multiset"
begin

section \<open>The object store\<close>

text \<open>
  \<^verbatim>\<open>WebsitePool\<close> (\<^verbatim>\<open>tracer/src/models/websitepool.py\<close>) keeps references to
  \<^verbatim>\<open>Website\<close> objects in a Python list. Lists and websites are mutable and can be
  shared between pools, so objects live in a store and are named by their address.
\<close>

type_synonym addr = nat

datatype status = Found | NotFound | Failed

text \<open>
  Modelled from the spec: the class \<^verbatim>\<open>Result\<close> (\<^verbatim>\<open>models/result.py\<close>) is not part of
  the sources. The spec gives a Result an originating target identity, an outcome status,
  an evidence payload and a creation time, and calls it immutable.
\<close>

record result =
  r_identity :: string
  r_status :: status
  r_payload :: string
  r_created :: nat

text \<open>
  Modelled from the spec: the class \<^verbatim>\<open>Website\<close> (\<^verbatim>\<open>models/website.py\<close>) is not part
  of the sources. The spec gives a Probe Target a name, a mutable search parameter (the
  username) and an optional last Result; the Result is an object of its own, held by
  reference (\<open>None\<close> is Python's \<^verbatim>\<open>None\<close>).
\<close>

record website =
  w_name :: string
  w_username :: string
  w_result :: "addr option"

record heap =
  hp_websites :: "addr \<Rightarrow> website"
  hp_results :: "addr \<Rightarrow> result"
  hp_lists :: "addr \<Rightarrow> addr list"
  hp_next_website :: addr
  hp_next_result :: addr
  hp_next_list :: addr

text \<open>
  The instance attributes of a \<^verbatim>\<open>WebsitePool\<close>: \<^verbatim>\<open>__sites\<close> refers to a list object,
  \<^verbatim>\<open>__name\<close> holds a \<^verbatim>\<open>str\<close> and \<^verbatim>\<open>__allow_duplicates\<close> a \<^verbatim>\<open>bool\<close>. \<open>p_name\<close> is
  \<open>None\<close> while the attribute is not bound, which is the case only inside
  \<^verbatim>\<open>__init__\<close> before \<^verbatim>\<open>set_name\<close> has returned; \<^verbatim>\<open>set_name\<close> binds nothing but a
  \<^verbatim>\<open>str\<close>.
\<close>

record pool =
  p_sites :: addr
  p_allow_duplicates :: bool
  p_name :: "string option"

type_synonym state = "heap \<times> pool"

text \<open>The values a caller can pass where the code checks the type with \<^verbatim>\<open>isinstance\<close>.\<close>

datatype pyval =
    PyNone
  | PyBool bool
  | PyInt int
  | PyStr string
  | PyWebsite addr
  | PyPool pool

datatype error = TypeError string | AttributeError string | IndexError string | TimeoutError

text \<open>\<^verbatim>\<open>type(v).__qualname__\<close>\<close>

fun qualname :: "pyval \<Rightarrow> string" where
  "qualname PyNone = ''NoneType''"
| "qualname (PyBool b) = ''bool''"
| "qualname (PyInt i) = ''int''"
| "qualname (PyStr s) = ''str''"
| "qualname (PyWebsite a) = ''Website''"
| "qualname (PyPool p) = ''WebsitePool''"

text \<open>The message \<^verbatim>\<open>f"Expected type '{t}' instead of type '{type(v).__qualname__}'"\<close>.\<close>

definition expected :: "string \<Rightarrow> pyval \<Rightarrow> error" where
  "expected t v =
     TypeError (''Expected type '' @ [CHR 0x27] @ t @ [CHR 0x27] @ '' instead of type ''
                @ [CHR 0x27] @ qualname v @ [CHR 0x27])"

text \<open>
  A tuple is an immutable value; a list is reached through its address. A caller that
  holds one of the two can try to change it in place.
\<close>

datatype 'a pyseq = PyTuple "'a list" | PyList addr

text \<open>The members of a sequence of references, as a loop over it reads them.\<close>

fun items :: "heap \<Rightarrow> addr pyseq \<Rightarrow> addr list" where
  "items h (PyTuple xs) = xs"
| "items h (PyList l) = hp_lists h l"



section \<open>Reading a pool\<close>

text \<open>\<^verbatim>\<open>__iter__\<close>: \<^verbatim>\<open>yield from self.__sites\<close>, the current content of the list object.\<close>

definition iter :: "heap \<Rightarrow> pool \<Rightarrow> addr list" where
  "iter h p = hp_lists h (p_sites p)"

text \<open>\<^verbatim>\<open>__len__\<close>\<close>

definition len :: "heap \<Rightarrow> pool \<Rightarrow> nat" where
  "len h p = length (hp_lists h (p_sites p))"

text \<open>
  \<^verbatim>\<open>__contains__\<close>: \<^verbatim>\<open>isinstance(obj, Website) and any(map(lambda w: w == obj, self))\<close>.
  \<^verbatim>\<open>Website.__eq__\<close> is not part of the sources; it is the parameter \<open>weq\<close>, a relation on
  the attributes of the member \<open>w\<close> (left) and of \<open>obj\<close> (right).
\<close>

definition contains :: "(website \<Rightarrow> website \<Rightarrow> bool) \<Rightarrow> heap \<Rightarrow> pool \<Rightarrow> pyval \<Rightarrow> bool" where
  "contains weq h p obj =
     (case obj of
        PyWebsite a \<Rightarrow> list_ex (\<lambda>w. weq (hp_websites h w) (hp_websites h a)) (iter h p)
      | _ \<Rightarrow> False)"

text \<open>The properties \<^verbatim>\<open>sites\<close>, \<^verbatim>\<open>name\<close> and \<^verbatim>\<open>is_empty\<close>.\<close>

definition sites :: "heap \<Rightarrow> pool \<Rightarrow> addr pyseq" where
  "sites h p = PyTuple (hp_lists h (p_sites p))"

definition name :: "heap \<Rightarrow> pool \<Rightarrow> string option" where
  "name h p = p_name p"

definition is_empty :: "heap \<Rightarrow> pool \<Rightarrow> bool" where
  "is_empty h p = (\<not> (len h p \<noteq> 0))"

section \<open>Changing a pool\<close>

text \<open>
  A method that can raise returns \<open>Inl (e, s)\<close> when it raises \<open>e\<close> and leaves the
  store and the pool as \<open>s\<close>, and \<open>Inr s\<close> when it returns with the store and the pool as \<open>s\<close>.
\<close>

type_synonym outcome = "error \<times> state + state"

text \<open>\<^verbatim>\<open>set_name\<close>\<close>

definition set_name :: "state \<Rightarrow> pyval \<Rightarrow> outcome" where
  "set_name s v =
     (case v of
        PyStr n \<Rightarrow> Inr (fst s, (snd s)\<lparr>p_name := Some n\<rparr>)
      | _ \<Rightarrow> Inl (expected ''str'' v, s))"

text \<open>
  \<^verbatim>\<open>add\<close>: the type check, then the duplicate check, then \<^verbatim>\<open>self.__sites.append(website)\<close>,
  which changes the list object in place.
\<close>

definition append_site :: "heap \<Rightarrow> addr \<Rightarrow> addr \<Rightarrow> heap" where
  "append_site h l a = h\<lparr>hp_lists := (hp_lists h)(l := hp_lists h l @ [a])\<rparr>"

definition add :: "(website \<Rightarrow> website \<Rightarrow> bool) \<Rightarrow> state \<Rightarrow> pyval \<Rightarrow> outcome" where
  "add weq s v =
     (case v of
        PyWebsite a \<Rightarrow>
          if \<not> p_allow_duplicates (snd s) \<and> contains weq (fst s) (snd s) v then Inr s
          else Inr (append_site (fst s) (p_sites (snd s)) a, snd s)
      | _ \<Rightarrow> Inl (expected ''tracer.Website'' v, s))"

text \<open>
  \<^verbatim>\<open>copy.deepcopy(x, memo)\<close> of the standard library, for the objects a pool reaches.
  The memo maps the address of an object that has been copied to the address of its copy;
  an object found in the memo is not copied again. For an instance of a plain class the
  new object is created and entered in the memo, then its attributes are copied. A
  \<^verbatim>\<open>str\<close>, a \<^verbatim>\<open>bool\<close> and a number are returned as they are.

  Modelled from the spec: \<^verbatim>\<open>Website\<close> and \<^verbatim>\<open>Result\<close> are taken to be plain classes
  without a \<^verbatim>\<open>__deepcopy__\<close> of their own; the spec asks for copies that share no
  mutable state with their originals and that keep shared objects shared.
\<close>

record memo =
  m_websites :: "addr \<rightharpoonup> addr"
  m_results :: "addr \<rightharpoonup> addr"

definition empty_memo :: memo where
  "empty_memo = \<lparr>m_websites = Map.empty, m_results = Map.empty\<rparr>"

definition deepcopy_result :: "heap \<Rightarrow> memo \<Rightarrow> addr \<Rightarrow> heap \<times> memo \<times> addr" where
  "deepcopy_result h m r =
     (case m_results m r of
        Some r' \<Rightarrow> (h, m, r')
      | None \<Rightarrow>
          (let r' = hp_next_result h
           in (h\<lparr>hp_results := (hp_results h)(r' := hp_results h r), hp_next_result := Suc r'\<rparr>,
               m\<lparr>m_results := (m_results m)(r \<mapsto> r')\<rparr>,
               r')))"

definition deepcopy_website :: "heap \<Rightarrow> memo \<Rightarrow> addr \<Rightarrow> heap \<times> memo \<times> addr" where
  "deepcopy_website h m a =
     (case m_websites m a of
        Some a' \<Rightarrow> (h, m, a')
      | None \<Rightarrow>
          (let w = hp_websites h a;
               a' = hp_next_website h;
               h1 = h\<lparr>hp_next_website := Suc a'\<rparr>;
               m1 = m\<lparr>m_websites := (m_websites m)(a \<mapsto> a')\<rparr>;
               (h2, m2, res) =
                 (case w_result w of
                    None \<Rightarrow> (h1, m1, None)
                  | Some r \<Rightarrow> (let (h2, m2, r') = deepcopy_result h1 m1 r in (h2, m2, Some r')))
           in (h2\<lparr>hp_websites := (hp_websites h2)(a' := w\<lparr>w_result := res\<rparr>)\<rparr>, m2, a')))"

fun deepcopy_items :: "heap \<Rightarrow> memo \<Rightarrow> addr list \<Rightarrow> heap \<times> memo \<times> addr list" where
  "deepcopy_items h m [] = (h, m, [])"
| "deepcopy_items h m (a # as) =
     (let (h1, m1, a') = deepcopy_website h m a;
          (h2, m2, as') = deepcopy_items h1 m1 as
      in (h2, m2, a' # as'))"

definition deepcopy_list :: "heap \<Rightarrow> memo \<Rightarrow> addr \<Rightarrow> heap \<times> memo \<times> addr" where
  "deepcopy_list h m l =
     (let (h1, m1, xs) = deepcopy_items h m (hp_lists h l);
          l' = hp_next_list h1
      in (h1\<lparr>hp_lists := (hp_lists h1)(l' := xs), hp_next_list := Suc l'\<rparr>, m1, l'))"

text \<open>
  \<^verbatim>\<open>extend\<close>: \<^verbatim>\<open>for site in pool: self.add(copy.deepcopy(site) if _deepcopy else site)\<close>.
  \<open>deepcopy_if\<close> is the argument of \<^verbatim>\<open>add\<close>; \<^verbatim>\<open>copy.deepcopy(site)\<close> starts with an
  empty memo. The loop reads the list object of \<^verbatim>\<open>pool\<close> by index while \<^verbatim>\<open>add\<close> may append to the
  list object of \<^verbatim>\<open>self\<close>; when both are the same object the loop sees what it appends
  and need not end, so the loop takes fuel and returns \<open>None\<close> when the fuel is used up.
\<close>

definition deepcopy_if :: "bool \<Rightarrow> heap \<Rightarrow> addr \<Rightarrow> heap \<times> addr" where
  "deepcopy_if deep h site =
     (if deep then (let (h1, m1, c) = deepcopy_website h empty_memo site in (h1, c))
      else (h, site))"

fun extend_loop ::
  "nat \<Rightarrow> (website \<Rightarrow> website \<Rightarrow> bool) \<Rightarrow> addr \<Rightarrow> bool \<Rightarrow> nat \<Rightarrow> state \<Rightarrow> outcome option" where
  "extend_loop 0 weq src deep i s = None"
| "extend_loop (Suc fuel) weq src deep i s =
     (if i < length (hp_lists (fst s) src) then
        (let site = hp_lists (fst s) src ! i;
             (h1, arg) = deepcopy_if deep (fst s) site
         in case add weq (h1, snd s) (PyWebsite arg) of
              Inl e \<Rightarrow> Some (Inl e)
            | Inr s' \<Rightarrow> extend_loop fuel weq src deep (Suc i) s')
      else Some (Inr s))"

definition extend_pool ::
  "nat \<Rightarrow> (website \<Rightarrow> website \<Rightarrow> bool) \<Rightarrow> state \<Rightarrow> pyval \<Rightarrow> bool \<Rightarrow> outcome option" where
  "extend_pool fuel weq s v deep =
     (case v of
        PyPool q \<Rightarrow> extend_loop fuel weq (p_sites q) deep 0 s
      | _ \<Rightarrow> Some (Inl (expected ''tracer.WebsitePool'' v, s)))"

text \<open>
  \<^verbatim>\<open>remove\<close> and \<^verbatim>\<open>get\<close>. The callable \<^verbatim>\<open>where\<close> reads the store and a target; it is
  applied to every member of the tuple \<^verbatim>\<open>self.sites\<close>, and \<^verbatim>\<open>remove\<close> binds
  \<^verbatim>\<open>self.__sites\<close> to a new list object.
\<close>

definition new_list :: "heap \<Rightarrow> addr list \<Rightarrow> heap \<times> addr" where
  "new_list h xs =
     (h\<lparr>hp_lists := (hp_lists h)(hp_next_list h := xs), hp_next_list := Suc (hp_next_list h)\<rparr>,
      hp_next_list h)"

definition remove_where :: "state \<Rightarrow> (heap \<Rightarrow> addr \<Rightarrow> bool) \<Rightarrow> state" where
  "remove_where s wh =
     (let (h1, l) = new_list (fst s)
                      (filter (\<lambda>w. \<not> wh (fst s) w) (items (fst s) (sites (fst s) (snd s))))
      in (h1, (snd s)\<lparr>p_sites := l\<rparr>))"

definition get :: "state \<Rightarrow> (heap \<Rightarrow> addr \<Rightarrow> bool) \<Rightarrow> addr pyseq" where
  "get s wh = PyTuple (filter (wh (fst s)) (iter (fst s) (snd s)))"

definition get_by_name :: "state \<Rightarrow> string \<Rightarrow> addr option" where
  "get_by_name s n =
     (case get s (\<lambda>h w. w_name (hp_websites h w) = n) of
        PyTuple (x # xs) \<Rightarrow> Some x
      | _ \<Rightarrow> None)"

text \<open>
  \<^verbatim>\<open>set_username\<close>: the type check, then \<^verbatim>\<open>site.set_username(username)\<close> for every
  member of the tuple \<^verbatim>\<open>self.sites\<close>.

  Modelled from the spec: \<^verbatim>\<open>Website.set_username\<close> is not part of the sources; it stores
  the search parameter in the target.
\<close>

definition website_set_username :: "heap \<Rightarrow> addr \<Rightarrow> string \<Rightarrow> heap" where
  "website_set_username h a u =
     h\<lparr>hp_websites := (hp_websites h)(a := (hp_websites h a)\<lparr>w_username := u\<rparr>)\<rparr>"

definition set_username :: "state \<Rightarrow> pyval \<Rightarrow> outcome" where
  "set_username s v =
     (case v of
        PyStr u \<Rightarrow>
          Inr (fold (\<lambda>site h. website_set_username h site u)
                 (items (fst s) (sites (fst s) (snd s))) (fst s),
               snd s)
      | _ \<Rightarrow> Inl (expected ''str'' v, s))"


text \<open>
  \<^verbatim>\<open>__init__\<close>: a new empty list, the flag, \<^verbatim>\<open>self.set_name(name)\<close>, then
  \<^verbatim>\<open>self.add(site)\<close> for every given site. An exception leaves \<^verbatim>\<open>__init__\<close> and the
  caller gets no pool. \<open>nm\<close> is \<open>PyNone\<close> when the caller gives no name.
\<close>

fun add_all :: "(website \<Rightarrow> website \<Rightarrow> bool) \<Rightarrow> state \<Rightarrow> pyval list \<Rightarrow> outcome" where
  "add_all weq s [] = Inr s"
| "add_all weq s (v # vs) =
     (case add weq s v of
        Inl e \<Rightarrow> Inl e
      | Inr s' \<Rightarrow> add_all weq s' vs)"

definition init ::
  "(website \<Rightarrow> website \<Rightarrow> bool) \<Rightarrow> heap \<Rightarrow> pyval list \<Rightarrow> pyval \<Rightarrow> bool \<Rightarrow> error + state" where
  "init weq h vs nm allow_duplicates =
     (let (h0, l) = new_list h [];
          p0 = \<lparr>p_sites = l, p_allow_duplicates = allow_duplicates, p_name = None\<rparr>
      in case set_name (h0, p0) nm of
           Inl (e, s) \<Rightarrow> Inl e
         | Inr s1 \<Rightarrow>
             (case add_all weq s1 vs of
                Inl (e, s) \<Rightarrow> Inl e
              | Inr s2 \<Rightarrow> Inr s2))"

text \<open>
  \<^verbatim>\<open>__copy__\<close>: a new pool object whose attributes are bound to the same objects.
  \<^verbatim>\<open>__deepcopy__\<close>: a new pool object whose attributes are deep copies, made with one
  memo, in the order in which \<^verbatim>\<open>__init__\<close> has bound them. No object that a pool reaches
  refers back to a pool or to its list, so the entries of the memo for the pool
  (\<^verbatim>\<open>memo[id(self)]\<close>) and for the list are never read and are left out.
\<close>

definition copy_pool :: "pool \<Rightarrow> pool" where
  "copy_pool p =
     \<lparr>p_sites = p_sites p, p_allow_duplicates = p_allow_duplicates p, p_name = p_name p\<rparr>"

definition deepcopy_pool :: "heap \<Rightarrow> memo \<Rightarrow> pool \<Rightarrow> heap \<times> memo \<times> pool" where
  "deepcopy_pool h m p =
     (let (h1, m1, l) = deepcopy_list h m (p_sites p)
      in (h1, m1, \<lparr>p_sites = l, p_allow_duplicates = p_allow_duplicates p, p_name = p_name p\<rparr>))"

section \<open>Dispatch\<close>

text \<open>
  Modelled from the spec: \<^verbatim>\<open>Website.send_request\<close> is not part of the sources. The
  spec makes it a coroutine that reports through the callback it is given. Here a probe
  is the list of Results it passes to the callback, in order, and the way its coroutine
  ends: it returns, or it raises an exception that it does not handle.
\<close>

datatype ending = Returns | Raises

type_synonym probe = "result list \<times> ending"

text \<open>
  The task that \<^verbatim>\<open>asyncio.gather\<close> makes of one coroutine: still running, with the
  callback invocations it has left, or done with a value, or done with an exception.
\<close>

datatype task = Running "result list" ending | Finished | Excepted

fun is_running :: "task \<Rightarrow> bool" where
  "is_running (Running rs e) = True"
| "is_running t = False"

text \<open>
  What \<^verbatim>\<open>start_requests\<close> holds: the queue \<^verbatim>\<open>results\<close>, the tasks behind the future
  \<^verbatim>\<open>requests\<close> and whether that future is done, the Results yielded so far, and whether
  the generator has returned.
\<close>

record dispatch =
  d_queue :: "result list"
  d_tasks :: "task list"
  d_gather_done :: bool
  d_yielded :: "result list"
  d_exhausted :: bool

text \<open>
  The lines before the loop: an empty queue, one coroutine for every site of the pool,
  with \<^verbatim>\<open>results.put\<close> as callback, and \<^verbatim>\<open>asyncio.gather\<close> of them. The future that
  \<^verbatim>\<open>gather\<close> returns for no coroutine at all is done from the start.
\<close>

definition start_requests :: "(addr \<Rightarrow> probe) \<Rightarrow> heap \<Rightarrow> pool \<Rightarrow> dispatch" where
  "start_requests send_request h p =
     (let requests = map (\<lambda>site. Running (fst (send_request site)) (snd (send_request site)))
                         (iter h p)
      in \<lparr>d_queue = [], d_tasks = requests, d_gather_done = (requests = []),
          d_yielded = [], d_exhausted = False\<rparr>)"

text \<open>
  One move of task \<open>i\<close>. A callback invocation puts a Result at the end of the queue,
  which has no bound. When a task is done, \<^verbatim>\<open>gather\<close> sets its future: with the
  exception if the task raised (\<^verbatim>\<open>return_exceptions\<close> is left at \<^verbatim>\<open>False\<close>), with the
  values when no task is running any more; the other tasks go on.
\<close>

definition probe_step :: "dispatch \<Rightarrow> nat \<Rightarrow> dispatch option" where
  "probe_step d i =
     (if i < length (d_tasks d) then
        (case d_tasks d ! i of
           Running (r # rs) e \<Rightarrow>
             Some (d\<lparr>d_queue := d_queue d @ [r], d_tasks := (d_tasks d)[i := Running rs e]\<rparr>)
         | Running [] Returns \<Rightarrow>
             (let ts = (d_tasks d)[i := Finished]
              in Some (d\<lparr>d_tasks := ts,
                         d_gather_done := d_gather_done d \<or> list_all (\<lambda>t. \<not> is_running t) ts\<rparr>))
         | Running [] Raises \<Rightarrow>
             Some (d\<lparr>d_tasks := (d_tasks d)[i := Excepted], d_gather_done := True\<rparr>)
         | _ \<Rightarrow> None)
      else None)"

text \<open>
  \<^verbatim>\<open>asyncio.wait_for(results.get(), timeout=0.25)\<close>: the head of the queue, or
  \<^verbatim>\<open>TimeoutError\<close> when the queue stays empty for the whole wait.
\<close>

definition wait_for_get :: "result list \<Rightarrow> error + result \<times> result list" where
  "wait_for_get q = (case q of [] \<Rightarrow> Inl TimeoutError | r # rs \<Rightarrow> Inr (r, rs))"

text \<open>
  One pass of the generator through \<^verbatim>\<open>while not (results.empty() and requests.done())\<close>:
  the loop ends, or the body yields a Result, or \<^verbatim>\<open>except Exception\<close> catches the
  timeout and the condition is checked again. A Result that arrives while
  \<^verbatim>\<open>wait_for\<close> waits is taken by the next pass.
\<close>

definition poll :: "dispatch \<Rightarrow> dispatch option" where
  "poll d =
     (if d_exhausted d then None
      else if \<not> (d_queue d = [] \<and> d_gather_done d) then
        (case wait_for_get (d_queue d) of
           Inr (r, q) \<Rightarrow> Some (d\<lparr>d_queue := q, d_yielded := d_yielded d @ [r]\<rparr>)
         | Inl e \<Rightarrow> Some d)
      else Some (d\<lparr>d_exhausted := True\<rparr>))"

text \<open>
  The event loop interleaves the tasks and the generator; a schedule is the order in
  which they move.
\<close>

datatype event = Probe nat | Poll

fun step :: "dispatch \<Rightarrow> event \<Rightarrow> dispatch option" where
  "step d (Probe i) = probe_step d i"
| "step d Poll = poll d"

fun exec :: "dispatch \<Rightarrow> event list \<Rightarrow> dispatch option" where
  "exec d [] = Some d"
| "exec d (e # es) = (case step d e of None \<Rightarrow> None | Some d' \<Rightarrow> exec d' es)"

text \<open>
  What is left to do in a dispatch: every callback invocation that a task has not made
  yet counts twice, since its Result has to be put and then yielded; a running task, a
  queued Result and the generator that has not returned count once each.
\<close>

fun pending :: "task \<Rightarrow> result list" where
  "pending (Running rs e) = rs"
| "pending t = []"

fun task_work :: "task \<Rightarrow> nat" where
  "task_work (Running rs e) = 2 * length rs + 1"
| "task_work t = 0"

definition work :: "dispatch \<Rightarrow> nat" where
  "work d =
     sum_list (map task_work (d_tasks d)) + length (d_queue d) + (if d_exhausted d then 0 else 1)"

text \<open>
  Every probe succeeds: its coroutine passes one Result to the callback, which carries
  the name of its website, and returns.
\<close>

definition all_succeed :: "(addr \<Rightarrow> probe) \<Rightarrow> heap \<Rightarrow> pool \<Rightarrow> bool" where
  "all_succeed send_request h p =
     list_all (\<lambda>site. case send_request site of
                         ([r], Returns) \<Rightarrow> r_identity r = w_name (hp_websites h site)
                       | _ \<Rightarrow> False)
              (iter h p)"

text \<open>
  What holds during a dispatch in which no coroutine raises, \<open>rs\<close> being the Results of
  all callback invocations: every Result is yielded, queued or still to be put; the
  future of \<^verbatim>\<open>gather\<close> is done exactly when no task is running; and the generator has
  returned only with the queue empty and the future done.
\<close>

fun may_raise :: "task \<Rightarrow> bool" where
  "may_raise (Running rs Raises) = True"
| "may_raise Excepted = True"
| "may_raise t = False"

definition dispatch_inv :: "result list \<Rightarrow> dispatch \<Rightarrow> bool" where
  "dispatch_inv rs d =
     (mset (d_yielded d) + mset (d_queue d) + mset (concat (map pending (d_tasks d))) = mset rs \<and>
      list_all (\<lambda>t. \<not> may_raise t) (d_tasks d) \<and>
      d_gather_done d = list_all (\<lambda>t. \<not> is_running t) (d_tasks d) \<and>
      (d_exhausted d \<longrightarrow> d_queue d = [] \<and> d_gather_done d))"

section \<open>Sequences of operations\<close>

text \<open>
  The operations that change the members of a pool, with their arguments, and what a
  sequence of them leaves behind. A call that raises leaves the state it had reached, and
  the caller goes on from there. \<open>None\<close>: an \<^verbatim>\<open>extend\<close> has not returned within the
  fuel.
\<close>

datatype pool_op = Add pyval | Extend pyval bool | Remove "heap \<Rightarrow> addr \<Rightarrow> bool"

fun state_after :: "outcome \<Rightarrow> state" where
  "state_after (Inl (e, s)) = s"
| "state_after (Inr s) = s"

fun apply_op :: "nat \<Rightarrow> (website \<Rightarrow> website \<Rightarrow> bool) \<Rightarrow> state \<Rightarrow> pool_op \<Rightarrow> state option" where
  "apply_op fuel weq s (Add v) = Some (state_after (add weq s v))"
| "apply_op fuel weq s (Extend v deep) = map_option state_after (extend_pool fuel weq s v deep)"
| "apply_op fuel weq s (Remove f) = Some (remove_where s f)"

fun apply_ops :: "nat \<Rightarrow> (website \<Rightarrow> website \<Rightarrow> bool) \<Rightarrow> state \<Rightarrow> pool_op list \<Rightarrow> state option" where
  "apply_ops fuel weq s [] = Some s"
| "apply_ops fuel weq s (x # xs) =
     (case apply_op fuel weq s x of
        None \<Rightarrow> None
      | Some s' \<Rightarrow> apply_ops fuel weq s' xs)"

text \<open>
  A reference always refers to an object that exists. In the store that is: every member
  of every list is the address of a website that has been created, and a website that is
  passed to \<^verbatim>\<open>add\<close> has been created when it is passed.
\<close>

definition heap_ok :: "heap \<Rightarrow> bool" where
  "heap_ok h = (\<forall>l. \<forall>a \<in> set (hp_lists h l). a < hp_next_website h)"

fun value_ok :: "heap \<Rightarrow> pyval \<Rightarrow> bool" where
  "value_ok h (PyWebsite a) = (a < hp_next_website h)"
| "value_ok h v = True"

fun ops_ok :: "nat \<Rightarrow> (website \<Rightarrow> website \<Rightarrow> bool) \<Rightarrow> state \<Rightarrow> pool_op list \<Rightarrow> bool" where
  "ops_ok fuel weq s [] = True"
| "ops_ok fuel weq s (x # xs) =
     ((case x of Add v \<Rightarrow> value_ok (fst s) v | _ \<Rightarrow> True) \<and>
      (case apply_op fuel weq s x of
         None \<Rightarrow> True
       | Some s' \<Rightarrow> ops_ok fuel weq s' xs))"

text \<open>
  No member is equal to a later member: \<^verbatim>\<open>w == v\<close> is false for every member \<open>w\<close> and
  every member \<open>v\<close> behind it.
\<close>

definition no_duplicates :: "(website \<Rightarrow> website \<Rightarrow> bool) \<Rightarrow> heap \<Rightarrow> pool \<Rightarrow> bool" where
  "no_duplicates weq h p =
     sorted_wrt (\<lambda>w v. \<not> weq w v) (map (hp_websites h) (iter h p))"

text \<open>What the operations keep when the pool rejects duplicates.\<close>

definition pool_inv :: "(website \<Rightarrow> website \<Rightarrow> bool) \<Rightarrow> state \<Rightarrow> bool" where
  "pool_inv weq s =
     (heap_ok (fst s) \<and> \<not> p_allow_duplicates (snd s) \<and> no_duplicates weq (fst s) (snd s))"

section \<open>What a deep copy keeps\<close>

text \<open>
  The references of a pool point to objects that exist: the list, its members and the
  Results of its members have been created.
\<close>

definition pool_ok :: "heap \<Rightarrow> pool \<Rightarrow> bool" where
  "pool_ok h p =
     (p_sites p < hp_next_list h \<and>
      (\<forall>a \<in> set (iter h p).
         a < hp_next_website h \<and>
         (\<forall>r. w_result (hp_websites h a) = Some r \<longrightarrow> r < hp_next_result h)))"

text \<open>
  While the members of a list are copied, starting in the store \<open>h0\<close>: the store has only
  grown, every entry of the memo leads from an object of \<open>h0\<close> to a new object with the
  same attributes, and no two entries lead to the same object.
\<close>

definition heap_grows :: "heap \<Rightarrow> heap \<Rightarrow> bool" where
  "heap_grows h0 h =
     (hp_next_website h0 \<le> hp_next_website h \<and> hp_next_result h0 \<le> hp_next_result h \<and>
      hp_lists h = hp_lists h0 \<and> hp_next_list h = hp_next_list h0 \<and>
      (\<forall>a < hp_next_website h0. hp_websites h a = hp_websites h0 a) \<and>
      (\<forall>r < hp_next_result h0. hp_results h r = hp_results h0 r))"

definition results_copied :: "heap \<Rightarrow> heap \<Rightarrow> memo \<Rightarrow> bool" where
  "results_copied h0 h m =
     ((\<forall>r c. m_results m r = Some c \<longrightarrow>
          r < hp_next_result h0 \<and> hp_next_result h0 \<le> c \<and> c < hp_next_result h \<and>
          hp_results h c = hp_results h0 r) \<and>
      (\<forall>r r' c. m_results m r = Some c \<and> m_results m r' = Some c \<longrightarrow> r = r'))"

definition websites_copied :: "heap \<Rightarrow> heap \<Rightarrow> memo \<Rightarrow> bool" where
  "websites_copied h0 h m =
     ((\<forall>a c. m_websites m a = Some c \<longrightarrow>
          a < hp_next_website h0 \<and> hp_next_website h0 \<le> c \<and> c < hp_next_website h \<and>
          w_name (hp_websites h c) = w_name (hp_websites h0 a) \<and>
          w_username (hp_websites h c) = w_username (hp_websites h0 a) \<and>
          w_result (hp_websites h c) =
            (case w_result (hp_websites h0 a) of None \<Rightarrow> None | Some r \<Rightarrow> m_results m r) \<and>
          (\<forall>r. w_result (hp_websites h0 a) = Some r \<longrightarrow> m_results m r \<noteq> None)) \<and>
      (\<forall>a a' c. m_websites m a = Some c \<and> m_websites m a' = Some c \<longrightarrow> a = a'))"

definition memo_ok :: "heap \<Rightarrow> heap \<Rightarrow> memo \<Rightarrow> bool" where
  "memo_ok h0 h m = (heap_grows h0 h \<and> results_copied h0 h m \<and> websites_copied h0 h m)"

section \<open>A small store\<close>

text \<open>
  Three websites and one Result. Website 2 has the name of website 0 and is another
  object; website 1 holds the Result. The list at address 0 holds websites 0 and 1.
\<close>

definition example_heap :: heap where
  "example_heap =
     \<lparr>hp_websites = (\<lambda>a. \<lparr>w_name = (if a = 1 then ''gitlab'' else ''github''),
                             w_username = ''alice'',
                             w_result = (if a = 1 then Some 0 else None)\<rparr>),
      hp_results = (\<lambda>r. \<lparr>r_identity = ''gitlab'', r_status = Found,
                            r_payload = ''alice'', r_created = 7\<rparr>),
      hp_lists = (\<lambda>l. if l = 0 then [0, 1] else []),
      hp_next_website = 3, hp_next_result = 1, hp_next_list = 1\<rparr>"

definition example_pool :: pool where
  "example_pool = \<lparr>p_sites = 0, p_allow_duplicates = False, p_name = Some ''demo''\<rparr>"

text \<open>An equality of websites for the examples: two websites are equal when their names are.\<close>

definition name_eq :: "website \<Rightarrow> website \<Rightarrow> bool" where
  "name_eq w1 w2 = (w_name w1 = w_name w2)"

text \<open>A sequence of operations for the examples.\<close>

definition example_ops :: "pool_op list" where
  "example_ops =
     [Add (PyWebsite 2), Extend (PyPool example_pool) True,
      Remove (\<lambda>h w. w_username (hp_websites h w) = ''bob'')]"

text \<open>
  A store in which websites 0 and 1 hold the same Result object, and a pool that allows
  duplicates and has website 0 as its first and as its third member.
\<close>

definition shared_heap :: heap where
  "shared_heap =
     \<lparr>hp_websites = (\<lambda>a. \<lparr>w_name = (if a = 1 then ''gitlab'' else ''github''),
                             w_username = ''alice'',
                             w_result = (if a < 2 then Some 0 else None)\<rparr>),
      hp_results = (\<lambda>r. \<lparr>r_identity = ''github'', r_status = NotFound,
                            r_payload = ''alice'', r_created = 3\<rparr>),
      hp_lists = (\<lambda>l. if l = 0 then [0, 1, 0] else []),
      hp_next_website = 2, hp_next_result = 1, hp_next_list = 1\<rparr>"

definition shared_pool :: pool where
  "shared_pool = \<lparr>p_sites = 0, p_allow_duplicates = True, p_name = Some ''twice''\<rparr>"


text \<open>
  Probes for the websites of the small store. In \<open>example_send_request\<close> every probe
  succeeds; in \<open>faulty_send_request\<close> the probe of website 0 raises before it has a
  Result.
\<close>

definition example_result :: "addr \<Rightarrow> result" where
  "example_result a =
     \<lparr>r_identity = (if a = 1 then ''gitlab'' else ''github''), r_status = Found,
      r_payload = ''alice'', r_created = a\<rparr>"

definition example_send_request :: "addr \<Rightarrow> probe" where
  "example_send_request a = ([example_result a], Returns)"

definition faulty_send_request :: "addr \<Rightarrow> probe" where
  "faulty_send_request a = (if a = 0 then ([], Raises) else ([example_result a], Returns))"

section \<open>Collection operations\<close>

text \<open>
  C3. \<^verbatim>\<open>add\<close> applied to a value that is not a website raises \<^verbatim>\<open>TypeError\<close>. Applied
  to a website while the pool rejects duplicates and a member equal to it is present, it
  returns and changes nothing, so the length stays. In every other case the website is
  the new last member and the length has grown by one.
\<close>

theorem add_appends_unless_duplicate:
  "((\<forall>a. v \<noteq> PyWebsite a) \<longrightarrow> (\<exists>msg. add weq (h, p) v = Inl (TypeError msg, (h, p))))
 \<and> (\<forall>a. v = PyWebsite a \<and> \<not> p_allow_duplicates p
        \<and> (\<exists>w \<in> set (iter h p). weq (hp_websites h w) (hp_websites h a))
      \<longrightarrow> add weq (h, p) v = Inr (h, p))
 \<and> (\<forall>a. v = PyWebsite a
        \<and> (p_allow_duplicates p \<or> \<not> (\<exists>w \<in> set (iter h p). weq (hp_websites h w) (hp_websites h a)))
      \<longrightarrow> (\<exists>h'. add weq (h, p) v = Inr (h', p) \<and> iter h' p = iter h p @ [a]
                \<and> len h' p = len h p + 1))"
  by (cases v) (auto simp: add_def contains_def expected_def list_ex_iff append_site_def iter_def len_def)

lemma example_iter: "iter example_heap (example_pool\<lparr>p_allow_duplicates := b\<rparr>) = [0, 1]"
  by (simp add: example_heap_def example_pool_def iter_def)

lemma example_member_equal:
  "\<exists>w \<in> set (iter example_heap (example_pool\<lparr>p_allow_duplicates := b\<rparr>)).
      name_eq (hp_websites example_heap w) (hp_websites example_heap 2)"
  unfolding example_iter by (simp add: example_heap_def name_eq_def)

theorem add_appends_unless_duplicate_witness:
  "(\<exists>msg. add name_eq (example_heap, example_pool) (PyStr ''github'') = Inl (TypeError msg, (example_heap, example_pool)))
 \<and> add name_eq (example_heap, example_pool) (PyWebsite 2) = Inr (example_heap, example_pool)
 \<and> (\<exists>h'. add name_eq (example_heap, example_pool\<lparr>p_allow_duplicates := True\<rparr>) (PyWebsite 2)
            = Inr (h', example_pool\<lparr>p_allow_duplicates := True\<rparr>)
          \<and> iter h' (example_pool\<lparr>p_allow_duplicates := True\<rparr>) = [0, 1, 2])"
proof -
  have np: "\<not> p_allow_duplicates example_pool"
    by (simp add: example_pool_def)
  have me: "\<exists>w \<in> set (iter example_heap example_pool).
      name_eq (hp_websites example_heap w) (hp_websites example_heap 2)"
    using example_member_equal [of False] by (simp add: example_pool_def)
  have a: "\<exists>msg. add name_eq (example_heap, example_pool) (PyStr ''github'')
                  = Inl (TypeError msg, (example_heap, example_pool))"
    using add_appends_unless_duplicate [of "PyStr ''github''" name_eq example_heap example_pool] by simp
  have b: "add name_eq (example_heap, example_pool) (PyWebsite 2) = Inr (example_heap, example_pool)"
    using add_appends_unless_duplicate [of "PyWebsite 2" name_eq example_heap example_pool] np me by simp
  have c: "\<exists>h'. add name_eq (example_heap, example_pool\<lparr>p_allow_duplicates := True\<rparr>) (PyWebsite 2)
            = Inr (h', example_pool\<lparr>p_allow_duplicates := True\<rparr>)
          \<and> iter h' (example_pool\<lparr>p_allow_duplicates := True\<rparr>) = [0, 1, 2]"
    using add_appends_unless_duplicate [of "PyWebsite 2" name_eq example_heap "example_pool\<lparr>p_allow_duplicates := True\<rparr>"]
    unfolding example_iter by auto
  from a b c show ?thesis by blast
qed

text \<open>
  C10. \<^verbatim>\<open>x in pool\<close> is \<^verbatim>\<open>False\<close> for every \<open>x\<close> that is not a website, and no
  exception is raised: \<open>contains\<close> has a truth value for every argument. It is
  \<^verbatim>\<open>True\<close> exactly when \<open>x\<close> is a website and some member is equal to it; the member
  need not be the same object.
\<close>

theorem contains_iff_equal_member:
  "((\<forall>a. x \<noteq> PyWebsite a) \<longrightarrow> contains weq h p x = False)
 \<and> (contains weq h p x \<longleftrightarrow>
      (\<exists>a. x = PyWebsite a \<and> (\<exists>w \<in> set (iter h p). weq (hp_websites h w) (hp_websites h a))))"
  by (cases x) (auto simp: contains_def list_ex_iff)

theorem contains_iff_equal_member_witness:
  "contains name_eq example_heap example_pool (PyStr ''github'') = False
 \<and> contains name_eq example_heap example_pool (PyWebsite 2)
 \<and> 2 \<notin> set (iter example_heap example_pool)"
proof -
  have it: "iter example_heap example_pool = [0, 1]"
    using example_iter [of False] by (simp add: example_pool_def)
  have me: "\<exists>w \<in> set (iter example_heap example_pool).
      name_eq (hp_websites example_heap w) (hp_websites example_heap 2)"
    using example_member_equal [of False] by (simp add: example_pool_def)
  have a: "contains name_eq example_heap example_pool (PyStr ''github'') = False"
    using contains_iff_equal_member [of "PyStr ''github''" name_eq example_heap example_pool] by simp
  have b: "contains name_eq example_heap example_pool (PyWebsite 2)"
    using contains_iff_equal_member [of "PyWebsite 2" name_eq example_heap example_pool] me by simp
  from a b it show ?thesis by simp
qed

text \<open>
  C6. \<^verbatim>\<open>add\<close>, \<^verbatim>\<open>extend\<close>, \<^verbatim>\<open>set_username\<close> and \<^verbatim>\<open>set_name\<close> raise
  \<^verbatim>\<open>TypeError\<close> when the argument is of the wrong kind, and the store and the pool are
  then what they were before the call: the members, the attributes of every website and
  the name.
\<close>

theorem type_error_leaves_state:
  "((\<forall>a. v \<noteq> PyWebsite a) \<longrightarrow> (\<exists>msg. add weq s v = Inl (TypeError msg, s)))
 \<and> ((\<forall>q. v \<noteq> PyPool q) \<longrightarrow> (\<exists>msg. \<forall>fuel. extend_pool fuel weq s v deep = Some (Inl (TypeError msg, s))))
 \<and> ((\<forall>u. v \<noteq> PyStr u) \<longrightarrow> (\<exists>msg. set_username s v = Inl (TypeError msg, s)))
 \<and> ((\<forall>u. v \<noteq> PyStr u) \<longrightarrow> (\<exists>msg. set_name s v = Inl (TypeError msg, s)))"
  by (cases v) (simp_all add: add_def extend_pool_def set_username_def set_name_def expected_def)

theorem type_error_leaves_state_witness:
  "(\<exists>msg. add name_eq (example_heap, example_pool) PyNone = Inl (TypeError msg, (example_heap, example_pool)))
 \<and> (\<exists>msg. \<forall>fuel. extend_pool fuel name_eq (example_heap, example_pool) PyNone True
               = Some (Inl (TypeError msg, (example_heap, example_pool))))
 \<and> (\<exists>msg. set_username (example_heap, example_pool) PyNone = Inl (TypeError msg, (example_heap, example_pool)))
 \<and> (\<exists>msg. set_name (example_heap, example_pool) PyNone = Inl (TypeError msg, (example_heap, example_pool)))"
  using type_error_leaves_state [of PyNone name_eq "(example_heap, example_pool)" True]
  by simp

text \<open>
  C7. The claim is that a pool can be constructed without a name. \<^verbatim>\<open>__init__\<close> passes
  the default \<^verbatim>\<open>None\<close> to \<^verbatim>\<open>set_name\<close>, which raises \<^verbatim>\<open>TypeError\<close> for everything
  that is not a \<^verbatim>\<open>str\<close>: the construction fails, whatever the sites and the flag.
\<close>

theorem init_without_name_raises: "init weq h vs PyNone allow_duplicates =
    Inl (TypeError (''Expected type '' @ [CHR 0x27] @ ''str'' @ [CHR 0x27] @ '' instead of type '' @ [CHR 0x27] @ ''NoneType'' @ [CHR 0x27]))"
  by (simp add: init_def new_list_def set_name_def expected_def)

text \<open>
  C4. After \<^verbatim>\<open>remove(f)\<close> the members are the former members for which \<open>f\<close> is false,
  in their former order; \<open>f\<close> is applied to every former member in the store as it was
  before the call, and no website and no Result is changed. When \<open>f\<close> reads nothing but
  websites and Results, \<^verbatim>\<open>get(f)\<close> then returns the empty tuple.
\<close>

theorem remove_where_keeps_false:
  "remove_where (h, p) f = (h', p') \<Longrightarrow>
     iter h' p' = filter (\<lambda>w. \<not> f h w) (iter h p)
   \<and> hp_websites h' = hp_websites h \<and> hp_results h' = hp_results h
   \<and> ((\<forall>h1 h2 w. hp_websites h1 = hp_websites h2 \<and> hp_results h1 = hp_results h2 \<longrightarrow> f h1 w = f h2 w)
        \<longrightarrow> get (h', p') f = PyTuple [])"
proof -
  assume r: "remove_where (h, p) f = (h', p')"
  have it: "iter h' p' = filter (\<lambda>w. \<not> f h w) (iter h p)"
    using r by (auto simp: remove_where_def new_list_def sites_def iter_def)
  have w: "hp_websites h' = hp_websites h" and rs: "hp_results h' = hp_results h"
    using r by (auto simp: remove_where_def new_list_def)
  have "get (h', p') f = PyTuple []"
    if fr: "\<forall>h1 h2 w. hp_websites h1 = hp_websites h2 \<and> hp_results h1 = hp_results h2 \<longrightarrow> f h1 w = f h2 w"
  proof -
    have "f h' = f h" using fr w rs by blast
    then show ?thesis by (simp add: get_def it)
  qed
  with it w rs show ?thesis by blast
qed


theorem remove_where_keeps_false_witness:
  "iter (fst (remove_where (example_heap, example_pool) (\<lambda>h w. w_name (hp_websites h w) = ''gitlab'')))
        (snd (remove_where (example_heap, example_pool) (\<lambda>h w. w_name (hp_websites h w) = ''gitlab'')))
     = [0]
 \<and> get (remove_where (example_heap, example_pool) (\<lambda>h w. w_name (hp_websites h w) = ''gitlab''))
        (\<lambda>h w. w_name (hp_websites h w) = ''gitlab'') = PyTuple []"
proof -
  let ?f = "\<lambda>h w. w_name (hp_websites h w) = ''gitlab''"
  let ?s = "remove_where (example_heap, example_pool) ?f"
  have r: "remove_where (example_heap, example_pool) ?f = (fst ?s, snd ?s)"
    by simp
  have fr: "\<forall>h1 h2 w. hp_websites h1 = hp_websites h2 \<and> hp_results h1 = hp_results h2
              \<longrightarrow> ?f h1 w = ?f h2 w"
    by simp
  have it: "filter (\<lambda>w. \<not> ?f example_heap w) (iter example_heap example_pool) = [0]"
    using example_iter [of False] by (simp add: example_pool_def example_heap_def)
  from remove_where_keeps_false [OF r] fr it show ?thesis
    by simp
qed

section \<open>The reject policy\<close>

lemma heap_okD: "heap_ok h \<Longrightarrow> a \<in> set (hp_lists h l) \<Longrightarrow> a < hp_next_website h"
  by (simp add: heap_ok_def)

lemma add_inv:
  assumes "pool_inv weq s" "value_ok (fst s) v"
  shows "pool_inv weq (state_after (add weq s v))"
proof (cases v)
  case (PyWebsite a)
  obtain h p where s: "s = (h, p)" by (cases s)
  from assms PyWebsite s have a: "a < hp_next_website h" by simp
  show ?thesis
  proof (cases "contains weq h p v")
    case True
    with assms s PyWebsite show ?thesis
      by (simp add: add_def pool_inv_def)
  next
    case False
    then have ne: "\<forall>w \<in> set (hp_lists h (p_sites p)). \<not> weq (hp_websites h w) (hp_websites h a)"
      by (simp add: contains_def PyWebsite list_ex_iff iter_def)
    from assms s have ok: "heap_ok h" and nd: "no_duplicates weq h p"
      and rj: "\<not> p_allow_duplicates p"
      by (simp_all add: pool_inv_def)
    have ok': "heap_ok (append_site h (p_sites p) a)"
      using ok a by (auto simp: heap_ok_def append_site_def)
    have nd': "no_duplicates weq (append_site h (p_sites p) a) p"
      using nd ne by (simp add: no_duplicates_def append_site_def iter_def sorted_wrt_append)
    from False rj ok' nd' show ?thesis
      by (simp add: add_def s PyWebsite pool_inv_def)
  qed
qed (use assms in \<open>simp_all add: add_def\<close>)


lemma deepcopy_website_empty:
  "deepcopy_website h empty_memo a = (h1, m1, c) \<Longrightarrow>
     c = hp_next_website h \<and> hp_next_website h1 = Suc (hp_next_website h)
   \<and> hp_lists h1 = hp_lists h
   \<and> (\<forall>b. b \<noteq> hp_next_website h \<longrightarrow> hp_websites h1 b = hp_websites h b)"
  by (auto simp: deepcopy_website_def deepcopy_result_def empty_memo_def Let_def
           split: option.splits prod.splits)

lemma deepcopy_website_inv:
  assumes "pool_inv weq (h, p)" "deepcopy_website h empty_memo a = (h1, m1, c)"
  shows "pool_inv weq (h1, p) \<and> c < hp_next_website h1"
proof -
  from deepcopy_website_empty [OF assms(2)]
  have c: "c = hp_next_website h" and n: "hp_next_website h1 = Suc (hp_next_website h)"
    and l: "hp_lists h1 = hp_lists h"
    and w: "\<forall>b. b \<noteq> hp_next_website h \<longrightarrow> hp_websites h1 b = hp_websites h b"
    by simp_all
  from assms(1) have ok: "heap_ok h" and nd: "no_duplicates weq h p"
    and rj: "\<not> p_allow_duplicates p"
    by (simp_all add: pool_inv_def)
  have ok1: "heap_ok h1"
    using ok n l by (auto simp: heap_ok_def less_Suc_eq)
  have "hp_websites h1 x = hp_websites h x" if "x \<in> set (hp_lists h (p_sites p))" for x
  proof -
    from that have "x < hp_next_website h" by (rule heap_okD [OF ok])
    with w show ?thesis by simp
  qed
  then have meq: "map (hp_websites h1) (hp_lists h (p_sites p)) = map (hp_websites h) (hp_lists h (p_sites p))"
    by simp
  have nd1: "no_duplicates weq h1 p"
    using nd unfolding no_duplicates_def iter_def l meq .
  from ok1 nd1 rj c n show ?thesis
    by (simp add: pool_inv_def)
qed

lemma deepcopy_if_inv:
  assumes "pool_inv weq (h, p)" "site < hp_next_website h" "deepcopy_if deep h site = (h1, arg)"
  shows "pool_inv weq (h1, p) \<and> arg < hp_next_website h1"
proof (cases deep)
  case True
  obtain h2 m2 c where d: "deepcopy_website h empty_memo site = (h2, m2, c)"
    by (cases "deepcopy_website h empty_memo site")
  with assms(3) True have "h1 = h2" "arg = c"
    by (simp_all add: deepcopy_if_def)
  with deepcopy_website_inv [OF assms(1) d] show ?thesis by simp
next
  case False
  with assms(3) have "h1 = h" "arg = site"
    by (simp_all add: deepcopy_if_def)
  with assms show ?thesis by simp
qed

lemma extend_loop_step:
  assumes "i < length (hp_lists h src)" "deepcopy_if deep h (hp_lists h src ! i) = (h1, arg)"
  shows "extend_loop (Suc fuel) weq src deep i (h, p) =
           (case add weq (h1, p) (PyWebsite arg) of
              Inl e \<Rightarrow> Some (Inl e)
            | Inr s' \<Rightarrow> extend_loop fuel weq src deep (Suc i) s')"
  using assms by simp

lemma extend_loop_stop:
  "\<not> i < length (hp_lists h src) \<Longrightarrow> extend_loop (Suc fuel) weq src deep i (h, p) = Some (Inr (h, p))"
  by simp

lemma extend_loop_inv:
  "pool_inv weq s \<Longrightarrow> extend_loop fuel weq src deep i s = Some out \<Longrightarrow>
     pool_inv weq (state_after out)"
proof (induction fuel arbitrary: i s)
  case 0
  then show ?case by simp
next
  case (Suc fuel)
  obtain h p where s: "s = (h, p)" by (cases s)
  show ?case
  proof (cases "i < length (hp_lists h src)")
    case False
    with Suc.prems s show ?thesis
      by (simp only: extend_loop_stop) auto
  next
    case True
    from Suc.prems(1) s have ok: "heap_ok h" by (simp add: pool_inv_def)
    have sv: "hp_lists h src ! i < hp_next_website h"
      using True by (intro heap_okD [OF ok, of _ src]) simp
    obtain h1 arg where st: "deepcopy_if deep h (hp_lists h src ! i) = (h1, arg)"
      by (cases "deepcopy_if deep h (hp_lists h src ! i)")
    from Suc.prems(1) s have "pool_inv weq (h, p)" by simp
    from deepcopy_if_inv [OF this sv st]
    have i1: "pool_inv weq (h1, p)" and av: "arg < hp_next_website h1" by simp_all
    have i2: "pool_inv weq (state_after (add weq (h1, p) (PyWebsite arg)))"
      using i1 av by (intro add_inv) simp_all
    note stp = extend_loop_step [OF True st, of fuel weq p]
    show ?thesis
    proof (cases "add weq (h1, p) (PyWebsite arg)")
      case (Inl e)
      with Suc.prems(2) s stp have "out = Inl e" by simp
      with i2 Inl show ?thesis by simp
    next
      case (Inr s')
      with Suc.prems(2) s stp have "extend_loop fuel weq src deep (Suc i) s' = Some out"
        by simp
      moreover from i2 Inr have "pool_inv weq s'" by simp
      ultimately show ?thesis by (rule Suc.IH [rotated])
    qed
  qed
qed

lemma remove_where_inv:
  assumes "pool_inv weq s"
  shows "pool_inv weq (remove_where s f)"
proof -
  obtain h p where s: "s = (h, p)" by (cases s)
  from assms s have ok: "heap_ok h" and nd: "no_duplicates weq h p"
    and rj: "\<not> p_allow_duplicates p"
    by (simp_all add: pool_inv_def)
  have "sorted_wrt (\<lambda>w v. \<not> weq w v) (map (hp_websites h) (filter (\<lambda>w. \<not> f h w) (hp_lists h (p_sites p))))"
    using nd unfolding no_duplicates_def iter_def
    by (induction "hp_lists h (p_sites p)") (auto simp: sorted_wrt_map sorted_wrt_filter)
  then show ?thesis
    using ok rj
    by (auto simp: s pool_inv_def remove_where_def new_list_def sites_def no_duplicates_def iter_def heap_ok_def)
qed


lemma add_next_website:
  "hp_next_website (fst (state_after (add weq s v))) = hp_next_website (fst s)"
  by (cases v) (simp_all add: add_def append_site_def)

lemma add_all_inv:
  "pool_inv weq s \<Longrightarrow> \<forall>v \<in> set vs. value_ok (fst s) v \<Longrightarrow>
     pool_inv weq (state_after (add_all weq s vs))"
proof (induction vs arbitrary: s)
  case Nil
  then show ?case by simp
next
  case (Cons v vs)
  from Cons.prems have i1: "pool_inv weq (state_after (add weq s v))"
    by (intro add_inv) simp_all
  show ?case
  proof (cases "add weq s v")
    case (Inl e)
    with i1 show ?thesis by (cases e) simp
  next
    case (Inr s')
    with i1 have i2: "pool_inv weq s'" by simp
    have nw: "hp_next_website (fst s') = hp_next_website (fst s)"
      using add_next_website [of weq s v] Inr by simp
    have "\<forall>v \<in> set vs. value_ok (fst s') v"
    proof
      fix u assume "u \<in> set vs"
      with Cons.prems(2) have "value_ok (fst s) u" by simp
      then show "value_ok (fst s') u" using nw by (cases u) simp_all
    qed
    from Cons.IH [OF i2 this] Inr show ?thesis by simp
  qed
qed

lemma init_inv:
  assumes "heap_ok h" "\<forall>v \<in> set vs. value_ok h v" "init weq h vs nm False = Inr s"
  shows "pool_inv weq s"
proof -
  define h0 where "h0 = fst (new_list h [])"
  define p0 where "p0 = \<lparr>p_sites = snd (new_list h []), p_allow_duplicates = False, p_name = None\<rparr>"
  from assms(3) obtain n where nm: "nm = PyStr n"
    by (cases nm) (simp_all add: init_def set_name_def split: prod.splits)
  define s1 where "s1 = (h0, p0\<lparr>p_name := Some n\<rparr>)"
  have i1: "pool_inv weq s1"
    using assms(1)
    by (auto simp: s1_def h0_def p0_def new_list_def pool_inv_def heap_ok_def no_duplicates_def iter_def)
  have v1: "\<forall>v \<in> set vs. value_ok (fst s1) v"
  proof
    fix u assume "u \<in> set vs"
    with assms(2) have "value_ok h u" by simp
    then show "value_ok (fst s1) u"
      by (cases u) (simp_all add: s1_def h0_def new_list_def)
  qed
  have "add_all weq s1 vs = Inr s"
    using assms(3)
    by (simp add: init_def nm set_name_def s1_def h0_def p0_def split: prod.splits sum.splits)
  with add_all_inv [OF i1 v1] show ?thesis by simp
qed

lemma apply_ops_inv:
  "pool_inv weq s \<Longrightarrow> ops_ok fuel weq s xs \<Longrightarrow> apply_ops fuel weq s xs = Some s' \<Longrightarrow>
     pool_inv weq s'"
proof (induction xs arbitrary: s)
  case Nil
  then show ?case by simp
next
  case (Cons x xs)
  from Cons.prems(3) obtain s1 where a1: "apply_op fuel weq s x = Some s1"
    and a2: "apply_ops fuel weq s1 xs = Some s'"
    by (auto split: option.splits)
  have i1: "pool_inv weq s1"
  proof (cases x)
    case (Add v)
    with Cons.prems(2) have "value_ok (fst s) v" by simp
    from add_inv [OF Cons.prems(1) this] a1 Add show ?thesis by simp
  next
    case (Extend v deep)
    show ?thesis
    proof (cases v)
      case (PyPool q)
      with a1 Extend obtain out where "extend_loop fuel weq (p_sites q) deep 0 s = Some out"
        and "s1 = state_after out"
        by (auto simp: extend_pool_def)
      with extend_loop_inv [OF Cons.prems(1)] show ?thesis by simp
    qed (use a1 Extend Cons.prems(1) in \<open>auto simp: extend_pool_def\<close>)
  next
    case (Remove f)
    with a1 remove_where_inv [OF Cons.prems(1)] show ?thesis by auto
  qed
  from Cons.prems(2) a1 have "ops_ok fuel weq s1 xs" by simp
  from Cons.IH [OF i1 this a2] show ?case .
qed

lemma no_duplicates_nth:
  "no_duplicates weq h p \<Longrightarrow> i < j \<Longrightarrow> j < len h p \<Longrightarrow>
     \<not> weq (hp_websites h (iter h p ! i)) (hp_websites h (iter h p ! j))"
  by (simp add: no_duplicates_def len_def iter_def sorted_wrt_iff_nth_less)

text \<open>
  C5. A pool is constructed with the reject policy from any sites, and then any sequence
  of \<^verbatim>\<open>add\<close>, \<^verbatim>\<open>extend\<close> (with or without deep copies) and \<^verbatim>\<open>remove\<close> is applied to
  it, each call returning or raising. Afterwards the pool still rejects duplicates and no
  member is equal to a later member; when the equality of websites is symmetric, no two
  members at different positions are equal.
\<close>

theorem reject_policy_no_equal_members:
  assumes "heap_ok h" and "\<forall>v \<in> set vs. value_ok h v"
    and "init weq h vs nm False = Inr s0"
    and "ops_ok fuel weq s0 ops"
    and "apply_ops fuel weq s0 ops = Some (h', p')"
  shows "\<not> p_allow_duplicates p'
     \<and> (\<forall>i j. i < j \<and> j < len h' p' \<longrightarrow>
           \<not> weq (hp_websites h' (iter h' p' ! i)) (hp_websites h' (iter h' p' ! j)))
     \<and> ((\<forall>w v. weq w v = weq v w) \<longrightarrow>
          (\<forall>i j. i < len h' p' \<and> j < len h' p' \<and> i \<noteq> j \<longrightarrow>
             \<not> weq (hp_websites h' (iter h' p' ! i)) (hp_websites h' (iter h' p' ! j))))"
proof -
  have "pool_inv weq s0"
    using assms(1-3) by (rule init_inv)
  from apply_ops_inv [OF this assms(4,5)]
  have rj: "\<not> p_allow_duplicates p'" and nd: "no_duplicates weq h' p'"
    by (simp_all add: pool_inv_def)
  have lt: "\<not> weq (hp_websites h' (iter h' p' ! i)) (hp_websites h' (iter h' p' ! j))"
    if "i < j" "j < len h' p'" for i j
    using nd that by (rule no_duplicates_nth)
  have ne: "\<not> weq (hp_websites h' (iter h' p' ! i)) (hp_websites h' (iter h' p' ! j))"
    if sym: "\<forall>w v. weq w v = weq v w" and i: "i < len h' p'" and j: "j < len h' p'"
      and ij: "i \<noteq> j" for i j
  proof (cases "i < j")
    case True
    then show ?thesis using j by (rule lt)
  next
    case False
    with ij have "j < i" by simp
    then have "\<not> weq (hp_websites h' (iter h' p' ! j)) (hp_websites h' (iter h' p' ! i))"
      using i by (rule lt)
    with sym show ?thesis by blast
  qed
  from rj lt ne show ?thesis by blast
qed


lemma example_heap_ok: "heap_ok example_heap"
  by (simp add: heap_ok_def example_heap_def)

lemma example_run:
  "\<exists>s0 h' p'. init name_eq example_heap [PyWebsite 0] (PyStr ''demo'') False = Inr s0
      \<and> ops_ok 3 name_eq s0 example_ops
      \<and> apply_ops 3 name_eq s0 example_ops = Some (h', p')
      \<and> iter h' p' = [0, 4]"
  by (simp add: init_def new_list_def set_name_def add_def contains_def iter_def append_site_def
      example_heap_def example_pool_def example_ops_def name_eq_def extend_pool_def deepcopy_if_def
      deepcopy_website_def deepcopy_result_def empty_memo_def remove_where_def sites_def
      numeral_3_eq_3)

theorem reject_policy_no_equal_members_witness:
  "\<exists>s0 h' p'. init name_eq example_heap [PyWebsite 0] (PyStr ''demo'') False = Inr s0
      \<and> apply_ops 3 name_eq s0 example_ops = Some (h', p')
      \<and> iter h' p' = [0, 4]
      \<and> \<not> name_eq (hp_websites h' 0) (hp_websites h' 4)"
proof -
  from example_run obtain s0 h' p' where
    i: "init name_eq example_heap [PyWebsite 0] (PyStr ''demo'') False = Inr s0"
    and o: "ops_ok 3 name_eq s0 example_ops"
    and a: "apply_ops 3 name_eq s0 example_ops = Some (h', p')"
    and it: "iter h' p' = [0, 4]"
    by blast
  have v: "\<forall>v \<in> set [PyWebsite 0]. value_ok example_heap v"
    by (simp add: example_heap_def)
  from reject_policy_no_equal_members [OF example_heap_ok v i o a]
  have "\<forall>i j. i < j \<and> j < len h' p' \<longrightarrow>
           \<not> name_eq (hp_websites h' (iter h' p' ! i)) (hp_websites h' (iter h' p' ! j))"
    by blast
  moreover have "len h' p' = 2"
    using it by (simp add: len_def iter_def)
  ultimately have "\<not> name_eq (hp_websites h' (iter h' p' ! 0)) (hp_websites h' (iter h' p' ! 1))"
    by simp
  with it i a show ?thesis by auto
qed


lemma deepcopy_if_lists:
  "deepcopy_if deep h site = (h1, arg) \<Longrightarrow> hp_lists h1 = hp_lists h"
  by (cases deep)
     (auto simp: deepcopy_if_def split: prod.splits dest: deepcopy_website_empty)

lemma add_other_list:
  "add weq (h, p) v = Inr s' \<Longrightarrow> src \<noteq> p_sites p \<Longrightarrow>
     snd s' = p \<and> hp_lists (fst s') src = hp_lists h src"
  by (cases v) (auto simp: add_def append_site_def split: if_splits)

lemma extend_loop_returns:
  "src \<noteq> p_sites (snd s) \<Longrightarrow> length (hp_lists (fst s) src) - i < fuel \<Longrightarrow>
     \<exists>out. extend_loop fuel weq src deep i s = Some out"
proof (induction fuel arbitrary: i s)
  case 0
  then show ?case by simp
next
  case (Suc fuel)
  obtain h p where s: "s = (h, p)" by (cases s)
  show ?case
  proof (cases "i < length (hp_lists h src)")
    case False
    from extend_loop_stop [OF this, of fuel weq deep p] show ?thesis
      unfolding s by blast
  next
    case True
    obtain h1 arg where st: "deepcopy_if deep h (hp_lists h src ! i) = (h1, arg)"
      by (cases "deepcopy_if deep h (hp_lists h src ! i)")
    note stp = extend_loop_step [OF True st, of fuel weq p]
    show ?thesis
    proof (cases "add weq (h1, p) (PyWebsite arg)")
      case (Inl e)
      with stp s show ?thesis by simp
    next
      case (Inr s')
      from Suc.prems(1) s have ne: "src \<noteq> p_sites p" by simp
      from add_other_list [OF Inr ne] deepcopy_if_lists [OF st]
      have "snd s' = p" and "hp_lists (fst s') src = hp_lists h src" by simp_all
      with Suc.prems s True
      have "src \<noteq> p_sites (snd s')" and "length (hp_lists (fst s') src) - Suc i < fuel"
        by simp_all
      from Suc.IH [OF this] stp Inr s show ?thesis by simp
    qed
  qed
qed

lemma extend_pool_returns:
  "p_sites q \<noteq> p_sites p \<Longrightarrow>
     \<exists>out. extend_pool (Suc (length (hp_lists h (p_sites q)))) weq (h, p) (PyPool q) deep = Some out"
  unfolding extend_pool_def pyval.case
  by (rule extend_loop_returns) simp_all

text \<open>
  Why \<^verbatim>\<open>extend\<close> takes fuel: a pool that allows duplicates and is extended by itself,
  without deep copies, appends to the list it is reading and never reaches its end.
\<close>

lemma extend_loop_own_list_diverges:
  "p_allow_duplicates (snd s) \<Longrightarrow> i < length (hp_lists (fst s) (p_sites (snd s))) \<Longrightarrow>
     extend_loop fuel weq (p_sites (snd s)) False i s = None"
proof (induction fuel arbitrary: i s)
  case 0
  then show ?case by simp
next
  case (Suc fuel)
  obtain h p where s: "s = (h, p)" by (cases s)
  let ?a = "hp_lists h (p_sites p) ! i"
  let ?s' = "(append_site h (p_sites p) ?a, p)"
  from Suc.prems s have i: "i < length (hp_lists h (p_sites p))" and al: "p_allow_duplicates p"
    by simp_all
  have st: "deepcopy_if False h ?a = (h, ?a)"
    by (simp add: deepcopy_if_def)
  have ad: "add weq (h, p) (PyWebsite ?a) = Inr ?s'"
    using al by (simp add: add_def)
  have "extend_loop (Suc fuel) weq (p_sites p) False i (h, p)
      = extend_loop fuel weq (p_sites p) False (Suc i) ?s'"
    using extend_loop_step [OF i st, of fuel weq p] ad by simp
  moreover have "extend_loop fuel weq (p_sites (snd ?s')) False (Suc i) ?s' = None"
    using i al by (intro Suc.IH) (simp_all add: append_site_def)
  ultimately show ?case by (simp add: s)
qed

lemma extend_pool_by_itself_diverges:
  "p_allow_duplicates p \<Longrightarrow> iter h p \<noteq> [] \<Longrightarrow>
     extend_pool fuel weq (h, p) (PyPool p) False = None"
  using extend_loop_own_list_diverges [of "(h, p)" 0 fuel weq]
  by (simp add: extend_pool_def iter_def)

section \<open>Views\<close>






section \<open>Copies\<close>

lemma deepcopy_result_ok:
  assumes g: "heap_grows h0 h" and rc: "results_copied h0 h m" and r: "r < hp_next_result h0"
    and d: "deepcopy_result h m r = (h', m', c)"
  shows "heap_grows h0 h' \<and> results_copied h0 h' m' \<and> m_results m' r = Some c
       \<and> m_websites m' = m_websites m \<and> m_results m \<subseteq>\<^sub>m m_results m'
       \<and> hp_websites h' = hp_websites h \<and> hp_next_website h' = hp_next_website h"
proof (cases "m_results m r")
  case (Some c')
  with d have "h' = h" "m' = m" "c = c'"
    by (simp_all add: deepcopy_result_def)
  with g rc Some show ?thesis by simp
next
  case None
  define n where "n = hp_next_result h"
  from d None have h': "h' = h\<lparr>hp_results := (hp_results h)(n := hp_results h r), hp_next_result := Suc n\<rparr>"
    and m': "m' = m\<lparr>m_results := (m_results m)(r \<mapsto> n)\<rparr>" and c: "c = n"
    by (auto simp: deepcopy_result_def Let_def n_def)
  from g have n0: "hp_next_result h0 \<le> n"
    by (simp add: heap_grows_def n_def)
  have g': "heap_grows h0 h'"
    using g n0 by (auto simp: heap_grows_def h' n_def)
  have hr: "hp_results h r = hp_results h0 r"
    using g r by (simp add: heap_grows_def)
  have old: "c' < n \<and> r' < hp_next_result h0 \<and> hp_next_result h0 \<le> c' \<and> hp_results h c' = hp_results h0 r'"
    if "m_results m r' = Some c'" for r' c'
    using rc that by (simp add: results_copied_def n_def)
  have rc': "results_copied h0 h' m'"
    unfolding results_copied_def
  proof (intro conjI allI impI)
    fix r' c' assume a: "m_results m' r' = Some c'"
    show "r' < hp_next_result h0" using a r old by (auto simp: m' split: if_splits)
    show "hp_next_result h0 \<le> c'" using a n0 old by (auto simp: m' split: if_splits)
    show "c' < hp_next_result h'" using a old by (auto simp: m' h' split: if_splits dest: less_SucI)
    show "hp_results h' c' = hp_results h0 r'"
      using a hr old [of r' c'] by (auto simp: m' h' split: if_splits)
  next
    fix r1 r2 c' assume a: "m_results m' r1 = Some c' \<and> m_results m' r2 = Some c'"
    show "r1 = r2"
    proof (cases "c' = n")
      case True
      with a old [of r1 c'] old [of r2 c'] show ?thesis
        by (auto simp: m' split: if_splits)
    next
      case False
      with a have "m_results m r1 = Some c'" "m_results m r2 = Some c'"
        by (auto simp: m' split: if_splits)
      with rc show ?thesis unfolding results_copied_def by blast
    qed
  qed
  have le: "m_results m \<subseteq>\<^sub>m m_results m'"
    using None by (auto simp: m' map_le_def)
  from g' rc' le show ?thesis
    by (simp add: m' c h')
qed


lemma deepcopy_website_unfold:
  assumes "m_websites m a = None"
    and "(case w_result (hp_websites h a) of
            None \<Rightarrow> (h\<lparr>hp_next_website := Suc (hp_next_website h)\<rparr>,
                     m\<lparr>m_websites := (m_websites m)(a \<mapsto> hp_next_website h)\<rparr>, None)
          | Some r \<Rightarrow>
              (let (h2, m2, r') =
                     deepcopy_result (h\<lparr>hp_next_website := Suc (hp_next_website h)\<rparr>)
                       (m\<lparr>m_websites := (m_websites m)(a \<mapsto> hp_next_website h)\<rparr>) r
               in (h2, m2, Some r'))) = (h2, m2, res)"
  shows "deepcopy_website h m a =
           (h2\<lparr>hp_websites := (hp_websites h2)(hp_next_website h := (hp_websites h a)\<lparr>w_result := res\<rparr>)\<rparr>,
            m2, hp_next_website h)"
  using assms by (simp add: deepcopy_website_def Let_def)

lemma deepcopy_website_ok:
  assumes mo: "memo_ok h0 h m" and a: "a < hp_next_website h0"
    and ar: "\<forall>r. w_result (hp_websites h0 a) = Some r \<longrightarrow> r < hp_next_result h0"
    and d: "deepcopy_website h m a = (h', m', c)"
  shows "memo_ok h0 h' m' \<and> m_websites m' a = Some c
       \<and> m_websites m \<subseteq>\<^sub>m m_websites m' \<and> m_results m \<subseteq>\<^sub>m m_results m'"
proof (cases "m_websites m a")
  case (Some c')
  with d have "h' = h" "m' = m" "c = c'"
    by (simp_all add: deepcopy_website_def)
  with mo Some show ?thesis by simp
next
  case None
  from mo have g: "heap_grows h0 h" and rc: "results_copied h0 h m"
    and wc: "websites_copied h0 h m"
    by (simp_all add: memo_ok_def)
  define n where "n = hp_next_website h"
  define w where "w = hp_websites h a"
  define h1 where "h1 = h\<lparr>hp_next_website := Suc n\<rparr>"
  define m1 where "m1 = m\<lparr>m_websites := (m_websites m)(a \<mapsto> n)\<rparr>"
  have w0: "w = hp_websites h0 a"
    using g a by (simp add: heap_grows_def w_def)
  from g have n0: "hp_next_website h0 \<le> n"
    by (simp add: heap_grows_def n_def)
  have g1: "heap_grows h0 h1"
    using g by (auto simp: heap_grows_def h1_def n_def)
  have rc1: "results_copied h0 h1 m1"
    using rc by (simp add: results_copied_def h1_def m1_def)
  obtain h2 m2 res where st:
    "(case w_result w of
        None \<Rightarrow> (h1, m1, None)
      | Some r \<Rightarrow> (let (h2, m2, r') = deepcopy_result h1 m1 r in (h2, m2, Some r'))) = (h2, m2, res)"
    by (metis prod_cases3)
  have props: "heap_grows h0 h2 \<and> results_copied h0 h2 m2 \<and> m_websites m2 = m_websites m1
      \<and> m_results m \<subseteq>\<^sub>m m_results m2 \<and> hp_websites h2 = hp_websites h
      \<and> hp_next_website h2 = Suc n
      \<and> res = (case w_result w of None \<Rightarrow> None | Some r \<Rightarrow> m_results m2 r)
      \<and> (\<forall>r. w_result w = Some r \<longrightarrow> m_results m2 r \<noteq> None)"
  proof (cases "w_result w")
    case None
    with st have "h2 = h1" "m2 = m1" "res = None" by simp_all
    with g1 rc1 None show ?thesis
      by (simp add: h1_def m1_def)
  next
    case (Some r)
    obtain h3 m3 r' where dr: "deepcopy_result h1 m1 r = (h3, m3, r')"
      by (cases "deepcopy_result h1 m1 r")
    with st Some have e: "h2 = h3" "m2 = m3" "res = Some r'" by simp_all
    from ar Some w0 have "r < hp_next_result h0" by simp
    from deepcopy_result_ok [OF g1 rc1 this dr] e Some show ?thesis
      by (simp add: h1_def m1_def)
  qed
  then have g2: "heap_grows h0 h2" and rc2: "results_copied h0 h2 m2"
    and mw2: "m_websites m2 = (m_websites m)(a \<mapsto> n)" and le2: "m_results m \<subseteq>\<^sub>m m_results m2"
    and ws2: "hp_websites h2 = hp_websites h" and nw2: "hp_next_website h2 = Suc n"
    and res: "res = (case w_result w of None \<Rightarrow> None | Some r \<Rightarrow> m_results m2 r)"
    and resd: "\<forall>r. w_result w = Some r \<longrightarrow> m_results m2 r \<noteq> None"
    by (simp_all add: m1_def)
  have "deepcopy_website h m a =
           (h2\<lparr>hp_websites := (hp_websites h2)(n := w\<lparr>w_result := res\<rparr>)\<rparr>, m2, n)"
    unfolding n_def w_def
    by (rule deepcopy_website_unfold [OF None]) (rule st [unfolded w_def h1_def m1_def n_def])
  with d have h': "h' = h2\<lparr>hp_websites := (hp_websites h2)(n := w\<lparr>w_result := res\<rparr>)\<rparr>"
    and m': "m' = m2" and c: "c = n"
    by auto
  have g': "heap_grows h0 h'"
    using g2 n0 by (auto simp: heap_grows_def h')
  have rc': "results_copied h0 h' m'"
    using rc2 by (simp add: results_copied_def h' m')
  have old: "a1 < hp_next_website h0 \<and> hp_next_website h0 \<le> c1 \<and> c1 < n
      \<and> w_name (hp_websites h c1) = w_name (hp_websites h0 a1)
      \<and> w_username (hp_websites h c1) = w_username (hp_websites h0 a1)
      \<and> w_result (hp_websites h c1) =
            (case w_result (hp_websites h0 a1) of None \<Rightarrow> None | Some r \<Rightarrow> m_results m r)
      \<and> (\<forall>r. w_result (hp_websites h0 a1) = Some r \<longrightarrow> m_results m r \<noteq> None)"
    if "m_websites m a1 = Some c1" for a1 c1
    using wc that unfolding websites_copied_def n_def by blast
  have keep: "(case w_result (hp_websites h0 a1) of None \<Rightarrow> None | Some r \<Rightarrow> m_results m2 r)
            = (case w_result (hp_websites h0 a1) of None \<Rightarrow> None | Some r \<Rightarrow> m_results m r)
          \<and> (\<forall>r. w_result (hp_websites h0 a1) = Some r \<longrightarrow> m_results m2 r \<noteq> None)"
    if "m_websites m a1 = Some c1" for a1 c1
  proof (cases "w_result (hp_websites h0 a1)")
    case None
    then show ?thesis by simp
  next
    case (Some r)
    with old [OF that] obtain x where "m_results m r = Some x" by auto
    with le2 have "m_results m2 r = Some x"
      by (metis domI map_le_def)
    with Some \<open>m_results m r = Some x\<close> show ?thesis by simp
  qed
  have wc': "websites_copied h0 h' m'"
    unfolding websites_copied_def m'
  proof (rule conjI; intro allI impI)
    fix a1 c1 assume e: "m_websites m2 a1 = Some c1"
    show "a1 < hp_next_website h0 \<and> hp_next_website h0 \<le> c1 \<and> c1 < hp_next_website h'
      \<and> w_name (hp_websites h' c1) = w_name (hp_websites h0 a1)
      \<and> w_username (hp_websites h' c1) = w_username (hp_websites h0 a1)
      \<and> w_result (hp_websites h' c1) =
            (case w_result (hp_websites h0 a1) of None \<Rightarrow> None | Some r \<Rightarrow> m_results m2 r)
      \<and> (\<forall>r. w_result (hp_websites h0 a1) = Some r \<longrightarrow> m_results m2 r \<noteq> None)"
    proof (cases "a1 = a")
      case True
      with e have "c1 = n" by (simp add: mw2)
      with True a n0 res resd w0 show ?thesis
        by (simp add: h' nw2)
    next
      case False
      with e have o: "m_websites m a1 = Some c1" by (simp add: mw2)
      from old [OF o] have "c1 \<noteq> n" by simp
      with old [OF o] keep [OF o] show ?thesis
        by (simp add: h' nw2 ws2)
    qed
  next
    fix a1 a2 c1 assume e: "m_websites m2 a1 = Some c1 \<and> m_websites m2 a2 = Some c1"
    show "a1 = a2"
    proof (cases "c1 = n")
      case True
      with e old [of a1 c1] old [of a2 c1] show ?thesis
        by (auto simp: mw2 split: if_splits)
    next
      case False
      with e have "m_websites m a1 = Some c1" "m_websites m a2 = Some c1"
        by (auto simp: mw2 split: if_splits)
      with wc show ?thesis unfolding websites_copied_def by blast
    qed
  qed
  have le: "m_websites m \<subseteq>\<^sub>m m_websites m'"
    using None by (auto simp: m' mw2 map_le_def)
  from g' rc' wc' le le2 show ?thesis
    by (simp add: memo_ok_def m' mw2 c)
qed


lemma deepcopy_items_ok:
  "memo_ok h0 h m \<Longrightarrow>
   \<forall>a \<in> set xs. a < hp_next_website h0 \<and>
      (\<forall>r. w_result (hp_websites h0 a) = Some r \<longrightarrow> r < hp_next_result h0) \<Longrightarrow>
   deepcopy_items h m xs = (h', m', cs) \<Longrightarrow>
     memo_ok h0 h' m' \<and> map (m_websites m') xs = map Some cs
   \<and> m_websites m \<subseteq>\<^sub>m m_websites m' \<and> m_results m \<subseteq>\<^sub>m m_results m'"
proof (induction xs arbitrary: h m h' m' cs)
  case Nil
  then show ?case by simp
next
  case (Cons a xs)
  obtain h1 m1 c where d1: "deepcopy_website h m a = (h1, m1, c)"
    by (cases "deepcopy_website h m a")
  obtain h2 m2 cs2 where d2: "deepcopy_items h1 m1 xs = (h2, m2, cs2)"
    by (cases "deepcopy_items h1 m1 xs")
  from Cons.prems(3) d1 d2 have e: "h' = h2" "m' = m2" "cs = c # cs2"
    by simp_all
  from Cons.prems(2) have av: "a < hp_next_website h0"
    and ar: "\<forall>r. w_result (hp_websites h0 a) = Some r \<longrightarrow> r < hp_next_result h0"
    and rest: "\<forall>a \<in> set xs. a < hp_next_website h0 \<and>
      (\<forall>r. w_result (hp_websites h0 a) = Some r \<longrightarrow> r < hp_next_result h0)"
    by simp_all
  from deepcopy_website_ok [OF Cons.prems(1) av ar d1]
  have mo1: "memo_ok h0 h1 m1" and ma: "m_websites m1 a = Some c"
    and lw1: "m_websites m \<subseteq>\<^sub>m m_websites m1" and lr1: "m_results m \<subseteq>\<^sub>m m_results m1"
    by simp_all
  from Cons.IH [OF mo1 rest d2]
  have mo2: "memo_ok h0 h2 m2" and mp: "map (m_websites m2) xs = map Some cs2"
    and lw2: "m_websites m1 \<subseteq>\<^sub>m m_websites m2" and lr2: "m_results m1 \<subseteq>\<^sub>m m_results m2"
    by simp_all
  from ma lw2 have "m_websites m2 a = Some c"
    by (metis domI map_le_def)
  with mo2 mp lw1 lw2 lr1 lr2 e show ?case
    by (auto intro: map_le_trans)
qed

lemma memo_ok_empty: "memo_ok h h empty_memo"
  by (simp add: memo_ok_def heap_grows_def results_copied_def websites_copied_def empty_memo_def)

lemma fold_set_username:
  "fold (\<lambda>site h. website_set_username h site u) xs h =
     h\<lparr>hp_websites := (\<lambda>a. if a \<in> set xs then (hp_websites h a)\<lparr>w_username := u\<rparr>
                             else hp_websites h a)\<rparr>"
proof (induction xs arbitrary: h)
  case Nil
  then show ?case by simp
next
  case (Cons x xs)
  let ?f = "\<lambda>site h. website_set_username h site u"
  have "fold ?f (x # xs) h = fold ?f xs (website_set_username h x u)"
    by simp
  also have "\<dots> = (website_set_username h x u)\<lparr>hp_websites :=
      (\<lambda>a. if a \<in> set xs then (hp_websites (website_set_username h x u) a)\<lparr>w_username := u\<rparr>
           else hp_websites (website_set_username h x u) a)\<rparr>"
    by (rule Cons.IH)
  also have "\<dots> = h\<lparr>hp_websites := (\<lambda>a. if a \<in> set (x # xs) then (hp_websites h a)\<lparr>w_username := u\<rparr>
                             else hp_websites h a)\<rparr>"
    by (auto simp: website_set_username_def fun_eq_iff)
  finally show ?case .
qed

lemma set_username_str:
  "set_username (h, p) (PyStr u) =
     Inr (h\<lparr>hp_websites := (\<lambda>a. if a \<in> set (iter h p) then (hp_websites h a)\<lparr>w_username := u\<rparr>
                                   else hp_websites h a)\<rparr>, p)"
  by (simp add: set_username_def sites_def fold_set_username iter_def)


lemma deepcopy_pool_summary:
  assumes ok: "pool_ok h p" and dc: "deepcopy_pool h empty_memo p = (h', m, q)"
  shows "\<exists>h1 cs.
      memo_ok h h1 m \<and> map (m_websites m) (iter h p) = map Some cs
    \<and> h' = h1\<lparr>hp_lists := (hp_lists h1)(hp_next_list h := cs), hp_next_list := Suc (hp_next_list h)\<rparr>
    \<and> q = \<lparr>p_sites = hp_next_list h, p_allow_duplicates = p_allow_duplicates p, p_name = p_name p\<rparr>"
proof -
  obtain h1 m1 cs where di: "deepcopy_items h empty_memo (iter h p) = (h1, m1, cs)"
    by (cases "deepcopy_items h empty_memo (iter h p)")
  from ok have v: "\<forall>a \<in> set (iter h p). a < hp_next_website h \<and>
      (\<forall>r. w_result (hp_websites h a) = Some r \<longrightarrow> r < hp_next_result h)"
    by (simp add: pool_ok_def)
  from deepcopy_items_ok [OF memo_ok_empty v di]
  have mo: "memo_ok h h1 m1" and mp: "map (m_websites m1) (iter h p) = map Some cs"
    by simp_all
  from mo have nl: "hp_next_list h1 = hp_next_list h"
    by (simp add: memo_ok_def heap_grows_def)
  from dc di nl have "m = m1"
    and "h' = h1\<lparr>hp_lists := (hp_lists h1)(hp_next_list h := cs), hp_next_list := Suc (hp_next_list h)\<rparr>"
    and "q = \<lparr>p_sites = hp_next_list h, p_allow_duplicates = p_allow_duplicates p, p_name = p_name p\<rparr>"
    by (auto simp: deepcopy_pool_def deepcopy_list_def iter_def Let_def)
  with mo mp show ?thesis by blast
qed


lemma deepcopy_pool_members:
  assumes ok: "pool_ok h p" and dc: "deepcopy_pool h empty_memo p = (h', m, q)"
  shows "length (iter h' q) = length (iter h p)"
    and "iter h' p = iter h p"
    and "p_sites q \<noteq> p_sites p"
    and "p_name q = p_name p \<and> p_allow_duplicates q = p_allow_duplicates p"
    and "\<forall>a < hp_next_website h. hp_websites h' a = hp_websites h a"
    and "\<forall>r < hp_next_result h. hp_results h' r = hp_results h r"
    and "\<forall>i < length (iter h p). m_websites m (iter h p ! i) = Some (iter h' q ! i)"
    and "websites_copied h h' m"
    and "results_copied h h' m"
proof -
  from deepcopy_pool_summary [OF ok dc] obtain h1 cs where
    mo: "memo_ok h h1 m" and mp: "map (m_websites m) (iter h p) = map Some cs"
    and h': "h' = h1\<lparr>hp_lists := (hp_lists h1)(hp_next_list h := cs), hp_next_list := Suc (hp_next_list h)\<rparr>"
    and q: "q = \<lparr>p_sites = hp_next_list h, p_allow_duplicates = p_allow_duplicates p, p_name = p_name p\<rparr>"
    by blast
  from mo have g: "heap_grows h h1" and rc: "results_copied h h1 m" and wc: "websites_copied h h1 m"
    by (simp_all add: memo_ok_def)
  from ok have ne: "p_sites p \<noteq> hp_next_list h"
    by (simp add: pool_ok_def)
  have itq: "iter h' q = cs"
    by (simp add: iter_def h' q)
  from mp have len: "length cs = length (iter h p)"
    by (metis length_map)
  show "length (iter h' q) = length (iter h p)"
    using itq len by simp
  show "iter h' p = iter h p"
    using g ne by (simp add: iter_def h' heap_grows_def)
  show "p_sites q \<noteq> p_sites p"
    using ne by (simp add: q)
  show "p_name q = p_name p \<and> p_allow_duplicates q = p_allow_duplicates p"
    by (simp add: q)
  show "\<forall>a < hp_next_website h. hp_websites h' a = hp_websites h a"
    using g by (simp add: h' heap_grows_def)
  show "\<forall>r < hp_next_result h. hp_results h' r = hp_results h r"
    using g by (simp add: h' heap_grows_def)
  show "\<forall>i < length (iter h p). m_websites m (iter h p ! i) = Some (iter h' q ! i)"
  proof (intro allI impI)
    fix i assume i: "i < length (iter h p)"
    then have "map (m_websites m) (iter h p) ! i = m_websites m (iter h p ! i)"
      by simp
    moreover from i len have "map Some cs ! i = Some (cs ! i)"
      by simp
    ultimately show "m_websites m (iter h p ! i) = Some (iter h' q ! i)"
      using mp itq by simp
  qed
  show "websites_copied h h' m"
    using wc by (simp add: websites_copied_def h')
  show "results_copied h h' m"
    using rc by (simp add: results_copied_def h')
qed


lemma copied_result_eq:
  assumes rc: "results_copied h h' m"
    and x: "x' = (case x of None \<Rightarrow> None | Some r \<Rightarrow> m_results m r)"
    and xd: "\<forall>r. x = Some r \<longrightarrow> m_results m r \<noteq> None"
    and y: "y' = (case y of None \<Rightarrow> None | Some r \<Rightarrow> m_results m r)"
    and yd: "\<forall>r. y = Some r \<longrightarrow> m_results m r \<noteq> None"
  shows "(x' = y') = (x = y)"
proof (cases x)
  case None
  with x y yd show ?thesis by (cases y) auto
next
  case xs: (Some r)
  show ?thesis
  proof (cases y)
    case None
    with x y xd xs show ?thesis by auto
  next
    case (Some r')
    from xd xs obtain c where c: "m_results m r = Some c" by auto
    from yd Some obtain c' where c': "m_results m r' = Some c'" by auto
    from rc have inj: "\<And>r r' c. m_results m r = Some c \<Longrightarrow> m_results m r' = Some c \<Longrightarrow> r = r'"
      unfolding results_copied_def by blast
    from x y xs Some c c' inj [of r c r'] show ?thesis by auto
  qed
qed

text \<open>
  C9. Let a pool whose references point to objects that exist be deep-copied. The copy has
  the name, the flag and the number of members of the original, and member for member the
  same name, username and Result content. The original keeps its members and their
  attributes. The two pools have different list objects, no member in common, and no
  member of the copy holds a Result object that a member of the original holds; so
  \<^verbatim>\<open>set_username\<close> through the copy changes no member of the original, and
  \<^verbatim>\<open>set_username\<close> through the original changes no member of the copy. What is shared
  stays shared and is not duplicated: two positions of the copy hold the same website
  object exactly when they do in the original, and two members of the copy hold the same
  Result object exactly when the two members of the original do.

  A shallow copy has the members of the original in every store, since it refers to the
  same list object, and \<^verbatim>\<open>set_username\<close> through either pool is seen in every member of
  the other.
\<close>

theorem deep_copy_independent_shallow_copy_shared:
  "(pool_ok h p \<and> deepcopy_pool h empty_memo p = (h', m, q) \<longrightarrow>
      len h' q = len h p \<and> p_name q = p_name p \<and> p_allow_duplicates q = p_allow_duplicates p
    \<and> (\<forall>i < len h p.
          w_name (hp_websites h' (iter h' q ! i)) = w_name (hp_websites h (iter h p ! i))
        \<and> w_username (hp_websites h' (iter h' q ! i)) = w_username (hp_websites h (iter h p ! i))
        \<and> map_option (hp_results h') (w_result (hp_websites h' (iter h' q ! i)))
            = map_option (hp_results h) (w_result (hp_websites h (iter h p ! i))))
    \<and> iter h' p = iter h p
    \<and> (\<forall>a \<in> set (iter h p). hp_websites h' a = hp_websites h a)
    \<and> p_sites q \<noteq> p_sites p
    \<and> set (iter h' q) \<inter> set (iter h' p) = {}
    \<and> (\<forall>c \<in> set (iter h' q). \<forall>a \<in> set (iter h' p).
          w_result (hp_websites h' c) = None
        \<or> w_result (hp_websites h' c) \<noteq> w_result (hp_websites h' a))
    \<and> (\<forall>u. (\<forall>a \<in> set (iter h' p).
               hp_websites (fst (state_after (set_username (h', q) (PyStr u)))) a = hp_websites h' a)
           \<and> (\<forall>c \<in> set (iter h' q).
               hp_websites (fst (state_after (set_username (h', p) (PyStr u)))) c = hp_websites h' c))
    \<and> (\<forall>i j. i < len h p \<and> j < len h p \<longrightarrow>
          (iter h' q ! i = iter h' q ! j) = (iter h p ! i = iter h p ! j)
        \<and> (w_result (hp_websites h' (iter h' q ! i)) = w_result (hp_websites h' (iter h' q ! j)))
            = (w_result (hp_websites h (iter h p ! i)) = w_result (hp_websites h (iter h p ! j)))))
 \<and> (\<forall>h2. iter h2 (copy_pool p) = iter h2 p)
 \<and> (\<forall>u. (\<forall>a \<in> set (iter h p).
            w_username (hp_websites (fst (state_after (set_username (h, copy_pool p) (PyStr u)))) a) = u)
        \<and> (\<forall>a \<in> set (iter h (copy_pool p)).
            w_username (hp_websites (fst (state_after (set_username (h, p) (PyStr u)))) a) = u))"
proof (intro conjI impI)
  show sh: "\<forall>h2. iter h2 (copy_pool p) = iter h2 p"
    by (simp add: iter_def copy_pool_def)
  show "\<forall>u. (\<forall>a \<in> set (iter h p).
            w_username (hp_websites (fst (state_after (set_username (h, copy_pool p) (PyStr u)))) a) = u)
        \<and> (\<forall>a \<in> set (iter h (copy_pool p)).
            w_username (hp_websites (fst (state_after (set_username (h, p) (PyStr u)))) a) = u)"
    using sh by (simp add: set_username_str)
next
  assume "pool_ok h p \<and> deepcopy_pool h empty_memo p = (h', m, q)"
  then have ok: "pool_ok h p" and dc: "deepcopy_pool h empty_memo p = (h', m, q)"
    by simp_all
  note mem = deepcopy_pool_members [OF ok dc]
  from mem(8) have wcD: "\<And>a c. m_websites m a = Some c \<Longrightarrow>
          a < hp_next_website h \<and> hp_next_website h \<le> c
        \<and> w_name (hp_websites h' c) = w_name (hp_websites h a)
        \<and> w_username (hp_websites h' c) = w_username (hp_websites h a)
        \<and> w_result (hp_websites h' c) =
            (case w_result (hp_websites h a) of None \<Rightarrow> None | Some r \<Rightarrow> m_results m r)
        \<and> (\<forall>r. w_result (hp_websites h a) = Some r \<longrightarrow> m_results m r \<noteq> None)"
    unfolding websites_copied_def by blast
  from mem(8) have winj: "\<And>a a' c. m_websites m a = Some c \<Longrightarrow> m_websites m a' = Some c \<Longrightarrow> a = a'"
    unfolding websites_copied_def by blast
  from mem(9) have rcD: "\<And>r c. m_results m r = Some c \<Longrightarrow>
          r < hp_next_result h \<and> hp_next_result h \<le> c \<and> hp_results h' c = hp_results h r"
    unfolding results_copied_def by blast
  have nth: "m_websites m (iter h p ! i) = Some (iter h' q ! i)" if "i < len h p" for i
    using mem(7) that by (simp add: len_def iter_def)
  have orig: "a < hp_next_website h \<and> (\<forall>r. w_result (hp_websites h a) = Some r \<longrightarrow> r < hp_next_result h)"
    if "a \<in> set (iter h p)" for a
    using ok that by (simp add: pool_ok_def)
  have copy: "\<exists>a \<in> set (iter h p). m_websites m a = Some c" if "c \<in> set (iter h' q)" for c
  proof -
    from that obtain i where "i < length (iter h' q)" "iter h' q ! i = c"
      by (auto simp: in_set_conv_nth)
    with mem(1) nth [of i] show ?thesis
      by (auto simp: len_def iter_def)
  qed
  show "len h' q = len h p"
    using mem(1) by (simp add: len_def iter_def)
  show "p_name q = p_name p" "p_allow_duplicates q = p_allow_duplicates p"
    using mem(4) by simp_all
  show "\<forall>i < len h p.
          w_name (hp_websites h' (iter h' q ! i)) = w_name (hp_websites h (iter h p ! i))
        \<and> w_username (hp_websites h' (iter h' q ! i)) = w_username (hp_websites h (iter h p ! i))
        \<and> map_option (hp_results h') (w_result (hp_websites h' (iter h' q ! i)))
            = map_option (hp_results h) (w_result (hp_websites h (iter h p ! i)))"
  proof (intro allI impI)
    fix i assume i: "i < len h p"
    note f = wcD [OF nth [OF i]]
    have "map_option (hp_results h') (w_result (hp_websites h' (iter h' q ! i)))
            = map_option (hp_results h) (w_result (hp_websites h (iter h p ! i)))"
    proof (cases "w_result (hp_websites h (iter h p ! i))")
      case None
      with f show ?thesis by simp
    next
      case (Some r)
      with f obtain c where "m_results m r = Some c" by auto
      with f Some rcD [of r c] show ?thesis by simp
    qed
    with f show "w_name (hp_websites h' (iter h' q ! i)) = w_name (hp_websites h (iter h p ! i))
        \<and> w_username (hp_websites h' (iter h' q ! i)) = w_username (hp_websites h (iter h p ! i))
        \<and> map_option (hp_results h') (w_result (hp_websites h' (iter h' q ! i)))
            = map_option (hp_results h) (w_result (hp_websites h (iter h p ! i)))"
      by simp
  qed
  show ip: "iter h' p = iter h p"
    by (rule mem(2))
  show keep: "\<forall>a \<in> set (iter h p). hp_websites h' a = hp_websites h a"
    using mem(5) orig by simp
  show "p_sites q \<noteq> p_sites p"
    by (rule mem(3))
  show disj: "set (iter h' q) \<inter> set (iter h' p) = {}"
  proof (rule equals0I)
    fix c assume "c \<in> set (iter h' q) \<inter> set (iter h' p)"
    then have cq: "c \<in> set (iter h' q)" and cp: "c \<in> set (iter h p)"
      using ip by simp_all
    from copy [OF cq] obtain a where "m_websites m a = Some c" by blast
    from wcD [OF this] orig [OF cp] show False by simp
  qed
  show "\<forall>c \<in> set (iter h' q). \<forall>a \<in> set (iter h' p).
          w_result (hp_websites h' c) = None
        \<or> w_result (hp_websites h' c) \<noteq> w_result (hp_websites h' a)"
  proof (intro ballI)
    fix c a assume cq: "c \<in> set (iter h' q)" and "a \<in> set (iter h' p)"
    then have ap: "a \<in> set (iter h p)" using ip by simp
    from copy [OF cq] obtain b where b: "m_websites m b = Some c" by blast
    show "w_result (hp_websites h' c) = None
        \<or> w_result (hp_websites h' c) \<noteq> w_result (hp_websites h' a)"
    proof (cases "w_result (hp_websites h' c)")
      case None
      then show ?thesis by simp
    next
      case (Some r')
      with wcD [OF b] obtain r where "m_results m r = Some r'"
        by (auto split: option.splits)
      from rcD [OF this] have ge: "hp_next_result h \<le> r'" by simp
      from keep ap orig [OF ap]
      have lt: "\<forall>r. w_result (hp_websites h' a) = Some r \<longrightarrow> r < hp_next_result h"
        by simp
      have "w_result (hp_websites h' a) \<noteq> Some r'"
      proof
        assume "w_result (hp_websites h' a) = Some r'"
        with lt have "r' < hp_next_result h" by simp
        with ge show False by simp
      qed
      with Some show ?thesis by simp
    qed
  qed
  show "\<forall>u. (\<forall>a \<in> set (iter h' p).
               hp_websites (fst (state_after (set_username (h', q) (PyStr u)))) a = hp_websites h' a)
           \<and> (\<forall>c \<in> set (iter h' q).
               hp_websites (fst (state_after (set_username (h', p) (PyStr u)))) c = hp_websites h' c)"
    using disj by (auto simp: set_username_str)
  show "\<forall>i j. i < len h p \<and> j < len h p \<longrightarrow>
          (iter h' q ! i = iter h' q ! j) = (iter h p ! i = iter h p ! j)
        \<and> (w_result (hp_websites h' (iter h' q ! i)) = w_result (hp_websites h' (iter h' q ! j)))
            = (w_result (hp_websites h (iter h p ! i)) = w_result (hp_websites h (iter h p ! j)))"
  proof (intro allI impI)
    fix i j assume "i < len h p \<and> j < len h p"
    then have i: "i < len h p" and j: "j < len h p" by simp_all
    note fi = wcD [OF nth [OF i]] and fj = wcD [OF nth [OF j]]
    have a: "(iter h' q ! i = iter h' q ! j) = (iter h p ! i = iter h p ! j)"
      using nth [OF i] nth [OF j] winj [of "iter h p ! i" "iter h' q ! i" "iter h p ! j"]
      by auto
    have b: "(w_result (hp_websites h' (iter h' q ! i)) = w_result (hp_websites h' (iter h' q ! j)))
            = (w_result (hp_websites h (iter h p ! i)) = w_result (hp_websites h (iter h p ! j)))"
      by (rule copied_result_eq [OF mem(9)]) (use fi fj in simp_all)
    from a b show "(iter h' q ! i = iter h' q ! j) = (iter h p ! i = iter h p ! j)
        \<and> (w_result (hp_websites h' (iter h' q ! i)) = w_result (hp_websites h' (iter h' q ! j)))
            = (w_result (hp_websites h (iter h p ! i)) = w_result (hp_websites h (iter h p ! j)))"
      by simp
  qed
qed


lemma shared_pool_ok: "pool_ok shared_heap shared_pool"
  by (simp add: pool_ok_def shared_heap_def shared_pool_def iter_def)

lemma shared_deepcopy:
  "\<exists>h' m q. deepcopy_pool shared_heap empty_memo shared_pool = (h', m, q)
      \<and> iter h' q = [2, 3, 2] \<and> iter shared_heap shared_pool = [0, 1, 0]"
  by (simp add: deepcopy_pool_def deepcopy_list_def deepcopy_website_def deepcopy_result_def
      empty_memo_def shared_heap_def shared_pool_def iter_def)

theorem deep_copy_independent_shallow_copy_shared_witness:
  "pool_ok shared_heap shared_pool
 \<and> (\<exists>h' m q. deepcopy_pool shared_heap empty_memo shared_pool = (h', m, q)
      \<and> iter h' q = [2, 3, 2] \<and> iter h' shared_pool = [0, 1, 0]
      \<and> w_result (hp_websites h' 2) = w_result (hp_websites h' 3)
      \<and> hp_websites (fst (state_after (set_username (h', q) (PyStr ''bob'')))) 0 = hp_websites h' 0)
 \<and> w_username (hp_websites (fst (state_after
        (set_username (shared_heap, copy_pool shared_pool) (PyStr ''bob'')))) 0) = ''bob''"
proof -
  from shared_deepcopy obtain h' m q where
    dc: "deepcopy_pool shared_heap empty_memo shared_pool = (h', m, q)"
    and itq: "iter h' q = [2, 3, 2]" and itp: "iter shared_heap shared_pool = [0, 1, 0]"
    by blast
  note t = deep_copy_independent_shallow_copy_shared [of shared_heap shared_pool h' m q]
  have ln: "len shared_heap shared_pool = 3"
    using itp by (simp add: len_def iter_def)
  from t shared_pool_ok dc have ip: "iter h' shared_pool = iter shared_heap shared_pool"
    by blast
  from t shared_pool_ok dc have
    "\<forall>i j. i < len shared_heap shared_pool \<and> j < len shared_heap shared_pool \<longrightarrow>
       (w_result (hp_websites h' (iter h' q ! i)) = w_result (hp_websites h' (iter h' q ! j)))
       = (w_result (hp_websites shared_heap (iter shared_heap shared_pool ! i))
          = w_result (hp_websites shared_heap (iter shared_heap shared_pool ! j)))"
    by blast
  from this [rule_format, of 0 1] ln itq itp
  have sh: "w_result (hp_websites h' 2) = w_result (hp_websites h' 3)"
    by (simp add: shared_heap_def)
  from t shared_pool_ok dc have
    "\<forall>a \<in> set (iter h' shared_pool).
        hp_websites (fst (state_after (set_username (h', q) (PyStr ''bob'')))) a = hp_websites h' a"
    by blast
  with ip itp have ind: "hp_websites (fst (state_after (set_username (h', q) (PyStr ''bob'')))) 0 = hp_websites h' 0"
    by simp
  from t have "\<forall>a \<in> set (iter shared_heap shared_pool).
      w_username (hp_websites (fst (state_after
        (set_username (shared_heap, copy_pool shared_pool) (PyStr ''bob'')))) a) = ''bob''"
    by blast
  with itp have sc: "w_username (hp_websites (fst (state_after
        (set_username (shared_heap, copy_pool shared_pool) (PyStr ''bob'')))) 0) = ''bob''"
    by simp
  from shared_pool_ok dc itq ip itp sh ind sc show ?thesis
    by auto
qed

section \<open>Dispatch and collect\<close>

lemma pending_update:
  assumes "i < length ts"
  shows "mset (concat (map pending ts)) + mset (pending t)
       = mset (concat (map pending (ts[i := t]))) + mset (pending (ts ! i))"
proof -
  have "ts = take i ts @ ts ! i # drop (Suc i) ts"
    using assms by (rule id_take_nth_drop)
  then have a: "mset (concat (map pending ts))
      = mset (concat (map pending (take i ts))) + mset (pending (ts ! i))
        + mset (concat (map pending (drop (Suc i) ts)))"
    by (metis (no_types, lifting) concat.simps(2) concat_append list.simps(9) map_append
        mset_append add.assoc)
  have "ts[i := t] = take i ts @ t # drop (Suc i) ts"
    using assms by (rule upd_conv_take_nth_drop)
  then have b: "mset (concat (map pending (ts[i := t])))
      = mset (concat (map pending (take i ts))) + mset (pending t)
        + mset (concat (map pending (drop (Suc i) ts)))"
    by simp
  from a b show ?thesis by simp
qed

lemma work_update:
  assumes "i < length ts"
  shows "sum_list (map task_work ts) + task_work t
       = sum_list (map task_work (ts[i := t])) + task_work (ts ! i)"
proof -
  have "ts = take i ts @ ts ! i # drop (Suc i) ts"
    using assms by (rule id_take_nth_drop)
  then have a: "sum_list (map task_work ts)
      = sum_list (map task_work (take i ts)) + task_work (ts ! i)
        + sum_list (map task_work (drop (Suc i) ts))"
    by (metis (no_types, lifting) list.simps(9) map_append sum_list.Cons sum_list.append add.assoc)
  have "ts[i := t] = take i ts @ t # drop (Suc i) ts"
    using assms by (rule upd_conv_take_nth_drop)
  then have b: "sum_list (map task_work (ts[i := t]))
      = sum_list (map task_work (take i ts)) + task_work t
        + sum_list (map task_work (drop (Suc i) ts))"
    by simp
  from a b show ?thesis by simp
qed

lemma list_all_update:
  "list_all P ts \<Longrightarrow> P t \<Longrightarrow> list_all P (ts[i := t])"
  by (auto simp: list_all_iff dest: set_update_subset_insert [THEN subsetD])

text \<open>The three moves of a task.\<close>

lemma probe_step_cases:
  assumes "probe_step d i = Some d'"
  obtains
    (put) r rs e where "i < length (d_tasks d)" "d_tasks d ! i = Running (r # rs) e"
      "d' = d\<lparr>d_queue := d_queue d @ [r], d_tasks := (d_tasks d)[i := Running rs e]\<rparr>"
  | (return) "i < length (d_tasks d)" "d_tasks d ! i = Running [] Returns"
      "d' = d\<lparr>d_tasks := (d_tasks d)[i := Finished],
              d_gather_done := d_gather_done d \<or>
                list_all (\<lambda>t. \<not> is_running t) ((d_tasks d)[i := Finished])\<rparr>"
  | (raise) "i < length (d_tasks d)" "d_tasks d ! i = Running [] Raises"
      "d' = d\<lparr>d_tasks := (d_tasks d)[i := Excepted], d_gather_done := True\<rparr>"
  using assms
  by (auto simp: probe_step_def Let_def split: if_splits task.splits list.splits ending.splits)

lemma poll_cases:
  assumes "poll d = Some d'"
  obtains
    (yield) r q where "\<not> d_exhausted d" "d_queue d = r # q"
      "d' = d\<lparr>d_queue := q, d_yielded := d_yielded d @ [r]\<rparr>"
  | (timeout) "\<not> d_exhausted d" "d_queue d = []" "\<not> d_gather_done d" "d' = d"
  | (stop) "\<not> d_exhausted d" "d_queue d = []" "d_gather_done d" "d' = d\<lparr>d_exhausted := True\<rparr>"
  using assms
  by (auto simp: poll_def wait_for_get_def split: if_splits list.splits)


lemma running_not_all_done:
  "i < length ts \<Longrightarrow> is_running (ts ! i) \<Longrightarrow> \<not> list_all (\<lambda>t. \<not> is_running t) ts"
  by (auto simp: list_all_length)

lemma dispatch_inv_step:
  assumes inv: "dispatch_inv rs d" and st: "step d e = Some d'"
  shows "dispatch_inv rs d'"
proof -
  from inv have ms: "mset (d_yielded d) + mset (d_queue d) + mset (concat (map pending (d_tasks d))) = mset rs"
    and nr: "list_all (\<lambda>t. \<not> may_raise t) (d_tasks d)"
    and gd: "d_gather_done d = list_all (\<lambda>t. \<not> is_running t) (d_tasks d)"
    and ex: "d_exhausted d \<longrightarrow> d_queue d = [] \<and> d_gather_done d"
    unfolding dispatch_inv_def by blast+
  show ?thesis
  proof (cases e)
    case (Probe i)
    with st have "probe_step d i = Some d'" by simp
    then show ?thesis
    proof (cases rule: probe_step_cases)
      case (put r rs' en)
      have run: "is_running (d_tasks d ! i)" using put(2) by simp
      from running_not_all_done [OF put(1) run] gd ex
      have ng: "\<not> d_gather_done d" and nx: "\<not> d_exhausted d" by auto
      from pending_update [OF put(1), of "Running rs' en"] put(2)
      have "mset (concat (map pending (d_tasks d)))
          = mset (concat (map pending ((d_tasks d)[i := Running rs' en]))) + {#r#}"
        by simp
      with ms have ms': "mset (d_yielded d') + mset (d_queue d') + mset (concat (map pending (d_tasks d'))) = mset rs"
        by (simp add: put(3))
      from nr put(1,2) have "\<not> may_raise (Running (r # rs') en)"
        by (auto simp: list_all_length)
      then have "\<not> may_raise (Running rs' en)" by (cases en) simp_all
      with nr have nr': "list_all (\<lambda>t. \<not> may_raise t) (d_tasks d')"
        by (simp add: put(3) list_all_update)
      have "\<not> list_all (\<lambda>t. \<not> is_running t) ((d_tasks d)[i := Running rs' en])"
        using put(1) by (intro running_not_all_done [of i]) simp_all
      with ng have gd': "d_gather_done d' = list_all (\<lambda>t. \<not> is_running t) (d_tasks d')"
        by (simp add: put(3))
      from ms' nr' gd' nx show ?thesis
        by (simp add: dispatch_inv_def put(3))
    next
      case return
      have run: "is_running (d_tasks d ! i)" using return(2) by simp
      from running_not_all_done [OF return(1) run] gd ex
      have ng: "\<not> d_gather_done d" and nx: "\<not> d_exhausted d" by auto
      from pending_update [OF return(1), of Finished] return(2)
      have "mset (concat (map pending (d_tasks d)))
          = mset (concat (map pending ((d_tasks d)[i := Finished])))"
        by simp
      with ms have ms': "mset (d_yielded d') + mset (d_queue d') + mset (concat (map pending (d_tasks d'))) = mset rs"
        by (simp add: return(3))
      from nr have nr': "list_all (\<lambda>t. \<not> may_raise t) (d_tasks d')"
        by (simp add: return(3) list_all_update)
      from ng have gd': "d_gather_done d' = list_all (\<lambda>t. \<not> is_running t) (d_tasks d')"
        by (simp add: return(3))
      from ms' nr' gd' nx show ?thesis
        by (simp add: dispatch_inv_def return(3))
    next
      case raise
      from nr raise(1,2) have "\<not> may_raise (Running [] Raises)"
        by (auto simp: list_all_length)
      then show ?thesis by simp
    qed
  next
    case Poll
    with st have "poll d = Some d'" by simp
    then show ?thesis
    proof (cases rule: poll_cases)
      case (yield r q)
      with ms nr gd show ?thesis
        by (simp add: dispatch_inv_def)
    next
      case timeout
      with inv show ?thesis by simp
    next
      case stop
      with ms nr gd show ?thesis
        by (simp add: dispatch_inv_def)
    qed
  qed
qed

lemma dispatch_inv_exec:
  "dispatch_inv rs d \<Longrightarrow> exec d evs = Some d' \<Longrightarrow> dispatch_inv rs d'"
proof (induction evs arbitrary: d)
  case Nil
  then show ?case by simp
next
  case (Cons e evs)
  from Cons.prems(2) obtain d1 where s1: "step d e = Some d1" and s2: "exec d1 evs = Some d'"
    by (auto split: option.splits)
  from Cons.IH [OF dispatch_inv_step [OF Cons.prems(1) s1] s2] show ?case .
qed

lemma work_step:
  assumes st: "step d e = Some d'"
  shows "work d' < work d \<or> (d' = d \<and> e = Poll \<and> d_queue d = [] \<and> \<not> d_gather_done d)"
proof (cases e)
  case (Probe i)
  with st have "probe_step d i = Some d'" by simp
  then show ?thesis
  proof (cases rule: probe_step_cases)
    case (put r rs' en)
    from work_update [OF put(1), of "Running rs' en"] put(2)
    have "sum_list (map task_work (d_tasks d)) = sum_list (map task_work ((d_tasks d)[i := Running rs' en])) + 2"
      by simp
    then show ?thesis by (simp add: work_def put(3))
  next
    case return
    from work_update [OF return(1), of Finished] return(2)
    have "sum_list (map task_work (d_tasks d)) = sum_list (map task_work ((d_tasks d)[i := Finished])) + 1"
      by simp
    then show ?thesis by (simp add: work_def return(3))
  next
    case raise
    from work_update [OF raise(1), of Excepted] raise(2)
    have "sum_list (map task_work (d_tasks d)) = sum_list (map task_work ((d_tasks d)[i := Excepted])) + 1"
      by simp
    then show ?thesis by (simp add: work_def raise(3))
  qed
next
  case Poll
  with st have "poll d = Some d'" by simp
  then show ?thesis
    by (cases rule: poll_cases) (simp_all add: work_def Poll)
qed


lemma dispatch_progress:
  assumes inv: "dispatch_inv rs d" and nx: "\<not> d_exhausted d"
  shows "\<exists>e d'. step d e = Some d' \<and> work d' < work d"
proof (cases "list_all (\<lambda>t. \<not> is_running t) (d_tasks d)")
  case True
  with inv have gd: "d_gather_done d" by (simp add: dispatch_inv_def)
  obtain d' where p: "poll d = Some d'"
    using nx gd by (cases "d_queue d") (auto simp: poll_def wait_for_get_def)
  then have sp: "step d Poll = Some d'" by simp
  from work_step [OF sp] gd have "work d' < work d" by blast
  with sp show ?thesis by blast
next
  case False
  then obtain i where i: "i < length (d_tasks d)" and run: "is_running (d_tasks d ! i)"
    by (auto simp: list_all_length)
  from inv have "list_all (\<lambda>t. \<not> may_raise t) (d_tasks d)"
    by (simp add: dispatch_inv_def)
  with i have nr: "\<not> may_raise (d_tasks d ! i)"
    by (simp add: list_all_length)
  from run nr obtain rs' where t: "d_tasks d ! i = Running rs' Returns"
    by (cases "d_tasks d ! i" rule: may_raise.cases) auto
  obtain d' where p: "probe_step d i = Some d'"
    using i t by (cases rs') (auto simp: probe_step_def Let_def)
  then have sp: "step d (Probe i) = Some d'" by simp
  from work_step [OF sp] have "work d' < work d" by blast
  with sp show ?thesis by blast
qed

lemma dispatch_finishes:
  "dispatch_inv rs d \<Longrightarrow>
     \<exists>evs d'. exec d evs = Some d' \<and> d_exhausted d' \<and> length evs \<le> work d"
proof (induction "work d" arbitrary: d rule: less_induct)
  case less
  show ?case
  proof (cases "d_exhausted d")
    case True
    then have "exec d [] = Some d \<and> d_exhausted d \<and> length ([] :: event list) \<le> work d"
      by simp
    then show ?thesis by blast
  next
    case False
    from dispatch_progress [OF less.prems False] obtain e d1
      where s1: "step d e = Some d1" and w1: "work d1 < work d"
      by blast
    from less.hyps [OF w1 dispatch_inv_step [OF less.prems s1]] obtain evs d'
      where "exec d1 evs = Some d'" "d_exhausted d'" "length evs \<le> work d1"
      by blast
    with s1 w1 have "exec d (e # evs) = Some d' \<and> d_exhausted d' \<and> length (e # evs) \<le> work d"
      by simp
    then show ?thesis by blast
  qed
qed

lemma succeed_results:
  "list_all (\<lambda>site. case sr site of
                      ([r], Returns) \<Rightarrow> r_identity r = w_name (hp_websites h site)
                    | _ \<Rightarrow> False) xs \<Longrightarrow>
     length (concat (map (\<lambda>site. fst (sr site)) xs)) = length xs
   \<and> map r_identity (concat (map (\<lambda>site. fst (sr site)) xs)) = map (\<lambda>site. w_name (hp_websites h site)) xs
   \<and> list_all (\<lambda>site. snd (sr site) = Returns) xs"
  by (induction xs) (auto split: prod.splits list.splits ending.splits)

lemma dispatch_inv_start:
  assumes "all_succeed send_request h p"
  shows "dispatch_inv (concat (map (\<lambda>site. fst (send_request site)) (iter h p)))
           (start_requests send_request h p)"
proof -
  let ?ts = "map (\<lambda>site. Running (fst (send_request site)) (snd (send_request site))) (iter h p)"
  from succeed_results [OF assms [unfolded all_succeed_def]]
  have ret: "list_all (\<lambda>site. snd (send_request site) = Returns) (iter h p)"
    by simp
  have a: "concat (map pending ?ts) = concat (map (\<lambda>site. fst (send_request site)) (iter h p))"
    by (simp add: comp_def)
  have b: "list_all (\<lambda>t. \<not> may_raise t) ?ts"
    using ret by (simp add: list_all_iff)
  have c: "(?ts = []) = list_all (\<lambda>t. \<not> is_running t) ?ts"
    by (cases "iter h p") simp_all
  from a b c show ?thesis
    by (simp add: dispatch_inv_def start_requests_def Let_def)
qed

lemma exhausted_final:
  assumes "dispatch_inv rs d" "d_exhausted d"
  shows "mset (d_yielded d) = mset rs"
proof -
  from assms have q: "d_queue d = []" and all: "list_all (\<lambda>t. \<not> is_running t) (d_tasks d)"
    and ms: "mset (d_yielded d) + mset (d_queue d) + mset (concat (map pending (d_tasks d))) = mset rs"
    by (auto simp: dispatch_inv_def)
  have "pending t = []" if "\<not> is_running t" for t
    using that by (cases t) simp_all
  with all have "concat (map pending (d_tasks d)) = []"
    by (simp add: list_all_iff)
  with ms q show ?thesis by simp
qed

text \<open>
  C1. Let every probe of the pool succeed: its coroutine passes exactly one Result to the
  callback, carrying the name of its website, and returns. Then, whatever the order in
  which the tasks and the generator move: when the generator has returned it has yielded
  as many Results as the pool has members, namely the Result of every member once, and
  the names in the yielded Results are the names of the members. From every state that
  the dispatch reaches the generator can still return, within as many moves as there is
  work left, and every move either takes work away or is a pass of the loop that finds
  the queue empty while a task is still running. On an empty pool the first pass of the
  loop ends the generator, with nothing yielded.
\<close>

theorem dispatch_yields_every_result:
  assumes "all_succeed send_request h p"
  shows "(\<forall>evs d. exec (start_requests send_request h p) evs = Some d \<and> d_exhausted d \<longrightarrow>
            length (d_yielded d) = len h p
          \<and> mset (d_yielded d) = mset (concat (map (\<lambda>site. fst (send_request site)) (iter h p)))
          \<and> set (map r_identity (d_yielded d)) = set (map (\<lambda>site. w_name (hp_websites h site)) (iter h p)))
     \<and> (\<forall>evs d. exec (start_requests send_request h p) evs = Some d \<longrightarrow>
            (\<exists>evs' d'. exec d evs' = Some d' \<and> d_exhausted d' \<and> length evs' \<le> work d))
     \<and> (\<forall>evs d e d'. exec (start_requests send_request h p) evs = Some d \<and> step d e = Some d' \<longrightarrow>
            work d' < work d
          \<or> (d' = d \<and> e = Poll \<and> d_queue d = [] \<and> list_ex is_running (d_tasks d)))
     \<and> (iter h p = [] \<longrightarrow>
            (\<exists>d. exec (start_requests send_request h p) [Poll] = Some d \<and> d_exhausted d \<and> d_yielded d = []))"
proof -
  let ?rs = "concat (map (\<lambda>site. fst (send_request site)) (iter h p))"
  let ?d0 = "start_requests send_request h p"
  note inv0 = dispatch_inv_start [OF assms]
  from succeed_results [OF assms [unfolded all_succeed_def]]
  have ln: "length ?rs = length (iter h p)"
    and ids: "map r_identity ?rs = map (\<lambda>site. w_name (hp_websites h site)) (iter h p)"
    by simp_all
  have a: "length (d_yielded d) = len h p
          \<and> mset (d_yielded d) = mset ?rs
          \<and> set (map r_identity (d_yielded d)) = set (map (\<lambda>site. w_name (hp_websites h site)) (iter h p))"
    if "exec ?d0 evs = Some d \<and> d_exhausted d" for evs d
  proof -
    from that dispatch_inv_exec [OF inv0] have "dispatch_inv ?rs d" by blast
    with that have ms: "mset (d_yielded d) = mset ?rs" by (simp add: exhausted_final)
    then have "length (d_yielded d) = length ?rs"
      by (rule mset_eq_length)
    with ln have l: "length (d_yielded d) = len h p"
      by (simp add: len_def iter_def)
    from ms have "set (d_yielded d) = set ?rs"
      by (rule mset_eq_setD)
    then have "set (map r_identity (d_yielded d)) = set (map r_identity ?rs)"
      by simp
    with ids l ms show ?thesis by simp
  qed
  have b: "\<exists>evs' d'. exec d evs' = Some d' \<and> d_exhausted d' \<and> length evs' \<le> work d"
    if "exec ?d0 evs = Some d" for evs d
    using dispatch_inv_exec [OF inv0 that] by (rule dispatch_finishes)
  have c: "work d' < work d \<or> (d' = d \<and> e = Poll \<and> d_queue d = [] \<and> list_ex is_running (d_tasks d))"
    if "exec ?d0 evs = Some d \<and> step d e = Some d'" for evs d e d'
  proof -
    from that dispatch_inv_exec [OF inv0] have "dispatch_inv ?rs d" by blast
    then have "d_gather_done d = list_all (\<lambda>t. \<not> is_running t) (d_tasks d)"
      by (simp add: dispatch_inv_def)
    then have "\<not> d_gather_done d \<Longrightarrow> list_ex is_running (d_tasks d)"
      by (auto simp: list_all_iff list_ex_iff)
    with work_step [of d e d'] that show ?thesis by blast
  qed
  have e: "\<exists>d. exec ?d0 [Poll] = Some d \<and> d_exhausted d \<and> d_yielded d = []" if "iter h p = []"
    using that by (simp add: start_requests_def poll_def)
  from a b c e show ?thesis by blast
qed


lemma example_all_succeed: "all_succeed example_send_request example_heap example_pool"
  by (simp add: all_succeed_def example_send_request_def example_result_def example_heap_def
      example_pool_def iter_def)

lemma example_dispatch:
  "\<exists>d. exec (start_requests example_send_request example_heap example_pool)
          [Poll, Probe 1, Probe 0, Poll, Probe 1, Probe 0, Poll, Poll] = Some d
      \<and> d_exhausted d \<and> d_yielded d = [example_result 1, example_result 0]"
  by (simp add: start_requests_def example_send_request_def example_heap_def example_pool_def
      iter_def probe_step_def poll_def wait_for_get_def)

theorem dispatch_yields_every_result_witness:
  "all_succeed example_send_request example_heap example_pool
 \<and> (\<exists>d. exec (start_requests example_send_request example_heap example_pool)
          [Poll, Probe 1, Probe 0, Poll, Probe 1, Probe 0, Poll, Poll] = Some d
      \<and> d_exhausted d \<and> d_yielded d = [example_result 1, example_result 0]
      \<and> length (d_yielded d) = len example_heap example_pool
      \<and> set (map r_identity (d_yielded d))
          = set (map (\<lambda>site. w_name (hp_websites example_heap site)) (iter example_heap example_pool)))"
proof -
  from example_dispatch obtain d where
    e: "exec (start_requests example_send_request example_heap example_pool)
          [Poll, Probe 1, Probe 0, Poll, Probe 1, Probe 0, Poll, Poll] = Some d"
    and x: "d_exhausted d" and y: "d_yielded d = [example_result 1, example_result 0]"
    by blast
  from dispatch_yields_every_result [OF example_all_succeed] e x
  have "length (d_yielded d) = len example_heap example_pool
      \<and> set (map r_identity (d_yielded d))
          = set (map (\<lambda>site. w_name (hp_websites example_heap site)) (iter example_heap example_pool))"
    by blast
  with example_all_succeed e x y show ?thesis by blast
qed

lemma exhausted_stays:
  "d_exhausted d \<Longrightarrow> exec d evs = Some d' \<Longrightarrow> d_exhausted d' \<and> d_yielded d' = d_yielded d"
proof (induction evs arbitrary: d)
  case Nil
  then show ?case by simp
next
  case (Cons e evs)
  from Cons.prems(2) obtain d1 where s1: "step d e = Some d1" and s2: "exec d1 evs = Some d'"
    by (auto split: option.splits)
  have "d_exhausted d1 \<and> d_yielded d1 = d_yielded d"
  proof (cases e)
    case (Probe i)
    with s1 have "probe_step d i = Some d1" by simp
    then show ?thesis
      using Cons.prems(1) by (cases rule: probe_step_cases) simp_all
  next
    case Poll
    with s1 Cons.prems(1) show ?thesis by (simp add: poll_def)
  qed
  with Cons.IH [OF _ s2] show ?case by simp
qed

text \<open>
  C2. The claim is that a probe that raises costs its own Result only, and that the
  generator stops when all probes are done and the queue is empty. In the small store,
  let the probe of website 0 raise at once. The future of \<^verbatim>\<open>gather\<close> is then done, and the
  next pass of the loop finds the queue empty and ends the generator while the probe of
  website 1 is still running. That probe puts its Result into the queue afterwards, and
  no pass of the loop takes it out: the generator has returned.
\<close>

theorem dispatch_stops_at_first_fault:
  "exec (start_requests faulty_send_request example_heap example_pool) [Probe 0, Poll]
     = Some \<lparr>d_queue = [], d_tasks = [Excepted, Running [example_result 1] Returns],
             d_gather_done = True, d_yielded = [], d_exhausted = True\<rparr>
 \<and> exec (start_requests faulty_send_request example_heap example_pool) [Probe 0, Poll, Probe 1]
     = Some \<lparr>d_queue = [example_result 1], d_tasks = [Excepted, Running [] Returns],
             d_gather_done = True, d_yielded = [], d_exhausted = True\<rparr>
 \<and> exec (start_requests faulty_send_request example_heap example_pool) [Probe 0, Poll, Probe 1, Poll]
     = None"
  by (simp add: start_requests_def faulty_send_request_def example_heap_def example_pool_def
      iter_def probe_step_def poll_def wait_for_get_def)

end
